theory Spec2Isabelle
  imports
    Main
    "HOL-Library.Char_ord"
    "HOL-Library.List_Lexorder"
    "HOL-Library.Product_Lexorder"
    "HOL-Library.Multiset"
    "HOL-Library.AList"
begin

unbundle bit_operations_syntax

section \<open>Bytes, text and errors\<close>

text \<open>
  The program of \<^verbatim>\<open>ipv6_counter.py\<close> moves between \<^verbatim>\<open>str\<close> and \<^verbatim>\<open>bytes\<close>.
  A byte is a \<^typ>\<open>char\<close> (an 8-bit value); \<^verbatim>\<open>bytes\<close> compare
  lexicographically on the unsigned byte values, which is the order of
  \<^typ>\<open>char list\<close> here.  Text is modelled for ASCII input, where
  \<^verbatim>\<open>bytes.decode('utf-8')\<close> is the identity: every statement about a whole input
  file below carries that hypothesis.
\<close>

type_synonym byte = char
type_synonym bytes = "char list"

datatype reason =
    WrongGroupCount     \<comment> \<open>\<^verbatim>\<open>len(groups) != 8\<close>\<close>
  | BadDoubleColon      \<comment> \<open>\<^verbatim>\<open>len(parts) != 2\<close>\<close>
  | TooManyGroups       \<comment> \<open>\<^verbatim>\<open>missing_groups < 0\<close>\<close>
  | InvalidLiteral      \<comment> \<open>\<^verbatim>\<open>int(s, 16)\<close> rejects the text\<close>
  | EmptyMmap           \<comment> \<open>\<^verbatim>\<open>mmap.mmap\<close> of an empty file\<close>

datatype error =
    ValueError reason
  | StructError          \<comment> \<open>\<^verbatim>\<open>struct.pack('>H', v)\<close> with v outside 0..65535\<close>
  | ZeroDivisionError
  | IndexError
  | FileNotFoundError
  | OSError              \<comment> \<open>no room for another temporary file\<close>

definition IPV6_BYTES_LEN :: nat where
  "IPV6_BYTES_LEN = 16"

definition TARGET_PARTITION_SIZE :: nat where
  "TARGET_PARTITION_SIZE = 64 * 1024 * 1024"

section \<open>Python string operations (ASCII)\<close>

definition lower_char :: "char \<Rightarrow> char" where
  "lower_char c =
     (let n = (of_char c :: nat) in if 65 \<le> n \<and> n \<le> 90 then char_of (n + 32) else c)"

definition py_lower :: "string \<Rightarrow> string" where
  "py_lower s = map lower_char s"

text \<open>\<^verbatim>\<open>str.strip()\<close> removes the characters for which \<^verbatim>\<open>str.isspace\<close> holds:
  in ASCII, 0x09..0x0D, 0x1C..0x1F and the blank.\<close>

definition is_space :: "char \<Rightarrow> bool" where
  "is_space c = (let n = (of_char c :: nat) in (9 \<le> n \<and> n \<le> 13) \<or> (28 \<le> n \<and> n \<le> 32))"

definition py_strip :: "string \<Rightarrow> string" where
  "py_strip s = rev (dropWhile is_space (rev (dropWhile is_space s)))"

text \<open>\<^verbatim>\<open>s.lstrip('0')\<close>\<close>

definition lstrip0 :: "string \<Rightarrow> string" where
  "lstrip0 s = dropWhile (\<lambda>c. c = CHR ''0'') s"

text \<open>\<^verbatim>\<open>s.split(':')\<close>: every colon separates; the empty string gives one empty field.\<close>

fun split_colon :: "string \<Rightarrow> string list" where
  "split_colon [] = [[]]"
| "split_colon (c # cs) =
     (if c = CHR '':'' then [] # split_colon cs
      else (case split_colon cs of [] \<Rightarrow> [[c]] | g # gs \<Rightarrow> (c # g) # gs))"

text \<open>\<^verbatim>\<open>s.split('::')\<close>: the occurrences are taken from the left and do not overlap.\<close>

fun split_dcolon :: "string \<Rightarrow> string list" where
  "split_dcolon (a # b # cs) =
     (if a = CHR '':'' \<and> b = CHR '':'' then [] # split_dcolon cs
      else (case split_dcolon (b # cs) of [] \<Rightarrow> [[a]] | g # gs \<Rightarrow> (a # g) # gs))"
| "split_dcolon cs = [cs]"

text \<open>\<^verbatim>\<open>'::' in s\<close>\<close>

fun has_dcolon :: "string \<Rightarrow> bool" where
  "has_dcolon (a # b # cs) = ((a = CHR '':'' \<and> b = CHR '':'') \<or> has_dcolon (b # cs))"
| "has_dcolon cs = False"

subsection \<open>\<^verbatim>\<open>int(s, 16)\<close>\<close>

text \<open>
  CPython's \<^verbatim>\<open>int(s, 16)\<close> on an ASCII string: blanks (the C \<^verbatim>\<open>isspace\<close> set
  0x09..0x0D and 0x20) are skipped on both sides, then an optional sign, an optional
  \<^verbatim>\<open>0x\<close>/\<^verbatim>\<open>0X\<close> prefix (one underscore may follow it), then hexadecimal digits with
  single underscores between them.  \<open>None\<close> stands for the \<^verbatim>\<open>ValueError\<close>.
\<close>

definition is_cspace :: "char \<Rightarrow> bool" where
  "is_cspace c = (let n = (of_char c :: nat) in (9 \<le> n \<and> n \<le> 13) \<or> n = 32)"

definition digit16 :: "char \<Rightarrow> nat option" where
  "digit16 c =
     (let n = (of_char c :: nat) in
      if 48 \<le> n \<and> n \<le> 57 then Some (n - 48)
      else if 97 \<le> n \<and> n \<le> 102 then Some (n - 87)
      else if 65 \<le> n \<and> n \<le> 70 then Some (n - 55)
      else None)"

text \<open>The scan over digits and underscores: the flag says that the previous character
  was an underscore; the result is the value and the text left unread.\<close>

fun scan_digits :: "bool \<Rightarrow> int \<Rightarrow> string \<Rightarrow> (int \<times> string) option" where
  "scan_digits prev_us acc [] = (if prev_us then None else Some (acc, []))"
| "scan_digits prev_us acc (c # cs) =
     (if c = CHR ''_'' then (if prev_us then None else scan_digits True acc cs)
      else (case digit16 c of
              Some d \<Rightarrow> scan_digits False (16 * acc + int d) cs
            | None \<Rightarrow> (if prev_us then None else Some (acc, c # cs))))"

definition skip_prefix16 :: "string \<Rightarrow> string" where
  "skip_prefix16 s =
     (case s of
        a # b # rest \<Rightarrow>
          (if a = CHR ''0'' \<and> (b = CHR ''x'' \<or> b = CHR ''X'')
           then (case rest of u # rest' \<Rightarrow> (if u = CHR ''_'' then rest' else rest) | [] \<Rightarrow> rest)
           else s)
      | _ \<Rightarrow> s)"

definition py_int16 :: "string \<Rightarrow> int option" where
  "py_int16 s =
     (let s1 = dropWhile is_cspace s;
          (sign, s2) = (case s1 of
                          c # cs \<Rightarrow> (if c = CHR ''+'' then (1, cs)
                                     else if c = CHR ''-'' then (- 1, cs) else (1, s1))
                        | [] \<Rightarrow> (1, s1));
          s3 = skip_prefix16 s2
      in case s3 of
           [] \<Rightarrow> None
         | c # cs \<Rightarrow>
             (if c = CHR ''_'' then None
              else (case scan_digits False 0 s3 of
                      None \<Rightarrow> None
                    | Some (v, rest) \<Rightarrow>
                        (if length rest = length s3 then None
                         else if dropWhile is_cspace rest \<noteq> [] then None
                         else Some (sign * v)))))"

section \<open>IPv6Parser\<close>

text \<open>\<^verbatim>\<open>struct.pack('>H', value)\<close>\<close>

definition pack_H :: "int \<Rightarrow> error + bytes" where
  "pack_H v =
     (if 0 \<le> v \<and> v \<le> 65535
      then Inr [char_of (nat v div 256), char_of (nat v mod 256)]
      else Inl StructError)"

definition group_value :: "string \<Rightarrow> error + int" where
  "group_value grp =
     (if grp = [] \<or> grp = ''0'' then Inr 0
      else (case py_int16 (let t = lstrip0 grp in if t = [] then ''0'' else t) of
              None \<Rightarrow> Inl (ValueError InvalidLiteral)
            | Some v \<Rightarrow> Inr v))"

fun groups_to_bytes :: "string list \<Rightarrow> error + bytes" where
  "groups_to_bytes [] = Inr []"
| "groups_to_bytes (grp # groups) =
     (case group_value grp of
        Inl e \<Rightarrow> Inl e
      | Inr v \<Rightarrow>
          (case pack_H v of
             Inl e \<Rightarrow> Inl e
           | Inr b \<Rightarrow> (case groups_to_bytes groups of Inl e \<Rightarrow> Inl e | Inr bs \<Rightarrow> Inr (b @ bs))))"

definition expand_compressed :: "string \<Rightarrow> error + bytes" where
  "expand_compressed addr =
     (case split_dcolon addr of
        [l, r] \<Rightarrow>
          (let left_groups = (if l \<noteq> [] then split_colon l else []);
               right_groups = (if r \<noteq> [] then split_colon r else []);
               missing_groups = 8 - int (length left_groups) - int (length right_groups)
           in if missing_groups < 0 then Inl (ValueError TooManyGroups)
              else groups_to_bytes
                     (left_groups @ replicate (nat missing_groups) ''0'' @ right_groups))
      | _ \<Rightarrow> Inl (ValueError BadDoubleColon))"

definition to_canonical_bytes :: "string \<Rightarrow> error + bytes" where
  "to_canonical_bytes addr_str =
     (let addr = py_strip (py_lower addr_str) in
      if has_dcolon addr then expand_compressed addr
      else (let groups = split_colon addr in
            if length groups \<noteq> 8 then Inl (ValueError WrongGroupCount)
            else groups_to_bytes groups))"

section \<open>FastHasher\<close>

definition hash_bytes :: "bytes \<Rightarrow> nat" where
  "hash_bytes data =
     fold (\<lambda>byte hash_val. ((hash_val XOR of_char byte) * 0x01000193) AND 0xffffffff)
       data 0x811c9dc5"

definition get_partition :: "bytes \<Rightarrow> nat \<Rightarrow> error + nat" where
  "get_partition data num_partitions =
     (if num_partitions = 0 then Inl ZeroDivisionError
      else Inr (hash_bytes data mod num_partitions))"


section \<open>Files, temporary storage and diagnostics\<close>

text \<open>
  The program works on files.  A path is either one the user names or a temporary file
  \<open>TempFile d k\<close>: the \<open>k\<close>-th file of temporary directory \<open>d\<close>, where directory \<open>0\<close>
  is the system default (\<^verbatim>\<open>tempfile.mkstemp()\<close> without \<^verbatim>\<open>dir\<close>) and the others are
  made by \<^verbatim>\<open>tempfile.TemporaryDirectory()\<close>.  The store is an association list from
  paths to contents.  Two things can go wrong in it: opening a path that does not
  exist (\<open>FileNotFoundError\<close>), and creating a temporary file when the temporary storage
  already holds \<open>tmp_limit\<close> files (\<open>OSError\<close>; \<open>None\<close> is a storage without limit).
  Everything printed to \<^verbatim>\<open>sys.stderr\<close> is kept, in order, in \<open>stderr\<close>.
\<close>

datatype path = User string | TempFile nat nat

datatype diag =
    UsingPartitions nat           \<comment> \<open>the number of partitions in use\<close>
  | LineError string error        \<comment> \<open>a line that could not be processed, with the exception\<close>
  | PartitionCount path nat       \<comment> \<open>the count of one partition\<close>
  | PartitionError path error     \<comment> \<open>a partition whose task raised, with the exception\<close>
  | TotalUnique nat               \<comment> \<open>the total\<close>
  | InputNotFound string          \<comment> \<open>the input file does not exist\<close>
  | ResultSaved string            \<comment> \<open>the result was saved\<close>
  | CriticalError error           \<comment> \<open>the exception caught in main\<close>

record world =
  files :: "(path \<times> bytes) list"
  tmp_limit :: "nat option"
  stderr :: "diag list"

definition print_stderr :: "diag \<Rightarrow> world \<Rightarrow> world" where
  "print_stderr d w = w\<lparr>stderr := stderr w @ [d]\<rparr>"

definition read_file :: "world \<Rightarrow> path \<Rightarrow> bytes option" where
  "read_file w p = map_of (files w) p"

text \<open>\<^verbatim>\<open>open(p, 'wb')\<close>, the writes and the close: the file holds exactly the data.\<close>

definition write_file :: "world \<Rightarrow> path \<Rightarrow> bytes \<Rightarrow> world" where
  "write_file w p data = w\<lparr>files := AList.update p data (files w)\<rparr>"

definition unlink :: "world \<Rightarrow> path \<Rightarrow> world \<times> (error + unit)" where
  "unlink w p =
     (case read_file w p of
        None \<Rightarrow> (w, Inl FileNotFoundError)
      | Some _ \<Rightarrow> (w\<lparr>files := AList.delete p (files w)\<rparr>, Inr ()))"

fun is_temp :: "path \<Rightarrow> bool" where
  "is_temp (TempFile d k) = True"
| "is_temp (User name) = False"

fun in_dir :: "nat \<Rightarrow> path \<Rightarrow> bool" where
  "in_dir d (TempFile d' k) = (d' = d)"
| "in_dir d (User name) = False"

fun file_index :: "path \<Rightarrow> nat" where
  "file_index (TempFile d k) = k"
| "file_index (User name) = 0"

fun dir_index :: "path \<Rightarrow> nat" where
  "dir_index (TempFile d k) = d"
| "dir_index (User name) = 0"

definition tmp_count :: "world \<Rightarrow> nat" where
  "tmp_count w = length (filter is_temp (map fst (files w)))"

text \<open>A name that no file of directory \<open>d\<close> has: one past the largest index in use.\<close>

definition fresh_index :: "nat \<Rightarrow> (path \<times> bytes) list \<Rightarrow> nat" where
  "fresh_index d fs =
     fold (\<lambda>p m. max (Suc (file_index p)) m) (filter (in_dir d) (map fst fs)) 0"

text \<open>\<^verbatim>\<open>tempfile.mkstemp(dir=d)\<close>: a new, empty file.\<close>

definition mkstemp :: "nat \<Rightarrow> world \<Rightarrow> world \<times> (error + path)" where
  "mkstemp d w =
     (if (case tmp_limit w of None \<Rightarrow> False | Some n \<Rightarrow> n \<le> tmp_count w)
      then (w, Inl OSError)
      else (let p = TempFile d (fresh_index d (files w))
            in (w\<lparr>files := files w @ [(p, [])]\<rparr>, Inr p)))"

text \<open>\<^verbatim>\<open>tempfile.TemporaryDirectory()\<close>: a directory that no file is in, and its removal
  with everything in it when the \<^verbatim>\<open>with\<close> block is left.\<close>

definition fresh_dir :: "world \<Rightarrow> nat" where
  "fresh_dir w = fold (\<lambda>p m. max (Suc (dir_index p)) m) (map fst (files w)) 1"

definition remove_dir :: "nat \<Rightarrow> world \<Rightarrow> world" where
  "remove_dir d w = w\<lparr>files := filter (\<lambda>(p, data). \<not> in_dir d p) (files w)\<rparr>"

text \<open>\<^verbatim>\<open>str(n)\<close> for a non-negative integer.\<close>

function str_nat :: "nat \<Rightarrow> string" where
  "str_nat n = (if n < 10 then [char_of (48 + n)] else str_nat (n div 10) @ [char_of (48 + n mod 10)])"
  by pat_completeness auto
termination
  by (relation "measure id") auto

section \<open>PartitionWriter\<close>

record PartitionWriter =
  num_partitions :: nat
  temp_dir :: nat
  paths :: "path list"

text \<open>The constructor: one \<^verbatim>\<open>mkstemp\<close> per partition, the files opened in order.\<close>

fun create_partitions :: "nat list \<Rightarrow> nat \<Rightarrow> world \<Rightarrow> path list \<Rightarrow> world \<times> (error + path list)" where
  "create_partitions [] d w acc = (w, Inr acc)"
| "create_partitions (i # is) d w acc =
     (case mkstemp d w of
        (w1, Inl e) \<Rightarrow> (w1, Inl e)
      | (w1, Inr p) \<Rightarrow> create_partitions is d w1 (acc @ [p]))"

definition PartitionWriter_init :: "nat \<Rightarrow> nat \<Rightarrow> world \<Rightarrow> world \<times> (error + PartitionWriter)" where
  "PartitionWriter_init n d w =
     (case create_partitions [0..<n] d w [] of
        (w1, Inl e) \<Rightarrow> (w1, Inl e)
      | (w1, Inr ps) \<Rightarrow> (w1, Inr \<lparr>num_partitions = n, temp_dir = d, paths = ps\<rparr>))"

text \<open>\<^verbatim>\<open>write(partition, data)\<close> appends to the open file \<^verbatim>\<open>self.files[partition]\<close>.\<close>

definition PartitionWriter_write :: "PartitionWriter \<Rightarrow> nat \<Rightarrow> bytes \<Rightarrow> world \<Rightarrow> world \<times> (error + unit)" where
  "PartitionWriter_write writer part data w =
     (if part < length (paths writer)
      then (let p = paths writer ! part
            in (case read_file w p of
                  None \<Rightarrow> (w, Inl FileNotFoundError)
                | Some old \<Rightarrow> (write_file w p (old @ data), Inr ())))
      else (w, Inl IndexError))"

definition get_paths :: "PartitionWriter \<Rightarrow> path list" where
  "get_paths writer = paths writer"

section \<open>PartitionProcessor\<close>

text \<open>The loop \<^verbatim>\<open>chunk = f.read(16); if not chunk: break\<close>: the records of a file, the
  last one short when the length is not a multiple of 16.\<close>

function read_records :: "bytes \<Rightarrow> bytes list" where
  "read_records [] = []"
| "read_records (b # bs) = take IPV6_BYTES_LEN (b # bs) # read_records (drop IPV6_BYTES_LEN (b # bs))"
  by pat_completeness auto
termination
  by (relation "measure length") (auto simp: IPV6_BYTES_LEN_def)

text \<open>The scan \<^verbatim>\<open>if record != prev: unique_count += 1; prev = record\<close>, with \<open>None\<close> for
  Python's \<^verbatim>\<open>None\<close>.\<close>

fun count_changes :: "bytes option \<Rightarrow> nat \<Rightarrow> bytes list \<Rightarrow> nat" where
  "count_changes prev unique_count [] = unique_count"
| "count_changes prev unique_count (record # records) =
     (if Some record \<noteq> prev then count_changes (Some record) (unique_count + 1) records
      else count_changes prev unique_count records)"

definition count_unique_in_memory :: "world \<Rightarrow> path \<Rightarrow> world \<times> (error + nat)" where
  "count_unique_in_memory w partition_path =
     (case read_file w partition_path of
        None \<Rightarrow> (w, Inl FileNotFoundError)
      | Some data \<Rightarrow> (w, Inr (count_changes None 0 (sort (read_records data)))))"

subsection \<open>External sort\<close>

definition block_size :: nat where
  "block_size = 64 * 1024 * 1024"

definition records_per_block :: nat where
  "records_per_block = block_size div IPV6_BYTES_LEN"

text \<open>Phase 1.  The inner \<^verbatim>\<open>for\<close> loop reads at most \<open>records_per_block\<close> records, that
  is the records of the next \<open>records_per_block * 16\<close> bytes; each block is sorted and
  written to a run file of its own.\<close>

function split_sort :: "world \<Rightarrow> bytes \<Rightarrow> path list \<Rightarrow> world \<times> (error + path list)" where
  "split_sort w rest temp_files =
     (let block = read_records (take (records_per_block * IPV6_BYTES_LEN) rest) in
      if block = [] then (w, Inr temp_files)
      else (case mkstemp 0 w of
              (w1, Inl e) \<Rightarrow> (w1, Inl e)
            | (w1, Inr temp_path) \<Rightarrow>
                split_sort (write_file w1 temp_path (concat (sort block)))
                  (drop (records_per_block * IPV6_BYTES_LEN) rest) (temp_files @ [temp_path])))"
  by pat_completeness auto
termination
proof (relation "measure (\<lambda>(w, rest, temp_files). length rest)")
  fix w :: world and rest :: bytes and temp_files :: "path list" and block x2 w1 y temp_path
  assume "block = read_records (take (records_per_block * IPV6_BYTES_LEN) rest)" "block \<noteq> []"
  then have "rest \<noteq> []" by auto
  then show "((write_file w1 temp_path (concat (sort block)),
               drop (records_per_block * IPV6_BYTES_LEN) rest, temp_files @ [temp_path]),
              w, rest, temp_files) \<in> measure (\<lambda>(w, rest, temp_files). length rest)"
    by (simp add: records_per_block_def block_size_def IPV6_BYTES_LEN_def)
qed simp

text \<open>Phase 2.  \<^verbatim>\<open>heapq\<close> is used through \<^verbatim>\<open>heappush\<close> and \<^verbatim>\<open>heappop\<close> only, on a heap
  that starts empty: it is a priority queue, kept here as a sorted list, whose
  \<^verbatim>\<open>heappop\<close> gives the smallest \<open>(record, index)\<close> pair.\<close>

definition heappush :: "(bytes \<times> nat) list \<Rightarrow> bytes \<times> nat \<Rightarrow> (bytes \<times> nat) list" where
  "heappush heap item = insort item heap"

text \<open>Opening the run files and reading the first record of each.  A file handle is
  the part of the file not read yet.\<close>

fun open_runs ::
  "world \<Rightarrow> path list \<Rightarrow> (bytes \<times> nat) list \<Rightarrow> bytes list \<Rightarrow> error + ((bytes \<times> nat) list \<times> bytes list)" where
  "open_runs w [] heap file_handles = Inr (heap, file_handles)"
| "open_runs w (temp_path # temp_files) heap file_handles =
     (case read_file w temp_path of
        None \<Rightarrow> Inl FileNotFoundError
      | Some data \<Rightarrow>
          (let file_handles' = file_handles @ [drop IPV6_BYTES_LEN data];
               first_record = take IPV6_BYTES_LEN data;
               heap' = (if first_record \<noteq> []
                        then heappush heap (first_record, length file_handles' - 1) else heap)
           in open_runs w temp_files heap' file_handles'))"

text \<open>The merge loop \<^verbatim>\<open>while heap\<close>; the result is what was written to the result file
  and the exception that ended the loop, if any.\<close>

function merge_loop ::
  "(bytes \<times> nat) list \<Rightarrow> bytes list \<Rightarrow> bytes list \<Rightarrow> bytes list \<times> error option" where
  "merge_loop [] file_handles out = (out, None)"
| "merge_loop ((record, file_idx) # heap) file_handles out =
     (if file_idx < length file_handles
      then (let next_record = take IPV6_BYTES_LEN (file_handles ! file_idx);
                file_handles' = file_handles[file_idx := drop IPV6_BYTES_LEN (file_handles ! file_idx)];
                heap' = (if next_record \<noteq> [] then heappush heap (next_record, file_idx) else heap)
            in merge_loop heap' file_handles' (out @ [record]))
      else (out @ [record], Some IndexError))"
  by pat_completeness auto
termination
proof (relation "measure (\<lambda>(heap, file_handles, out). length heap + sum_list (map length file_handles))")
  fix r :: bytes and file_idx :: nat and heap :: "(bytes \<times> nat) list"
    and file_handles :: "bytes list" and out :: "bytes list"
    and next_record file_handles' heap'
  assume i: "file_idx < length file_handles"
    and n: "next_record = take IPV6_BYTES_LEN (file_handles ! file_idx)"
    and f: "file_handles' = file_handles[file_idx := drop IPV6_BYTES_LEN (file_handles ! file_idx)]"
    and h: "heap' = (if next_record \<noteq> [] then heappush heap (next_record, file_idx) else heap)"
  have s: "sum_list (map length file_handles') + min IPV6_BYTES_LEN (length (file_handles ! file_idx))
           = sum_list (map length file_handles)"
  proof -
    have "sum_list (map length file_handles')
          = sum_list (map length file_handles) + (length (file_handles ! file_idx) - IPV6_BYTES_LEN)
            - length (file_handles ! file_idx)"
      using i by (simp add: f map_update sum_list_update)
    moreover have "length (file_handles ! file_idx) \<le> sum_list (map length file_handles)"
      using i by (simp add: member_le_sum_list)
    ultimately show ?thesis by (simp add: min_def)
  qed
  show "((heap', file_handles', out @ [r]), (r, file_idx) # heap, file_handles, out)
        \<in> measure (\<lambda>(heap, file_handles, out). length heap + sum_list (map length file_handles))"
  proof (cases "next_record = []")
    case True
    then show ?thesis using s by (simp add: h)
  next
    case False
    then have "0 < min IPV6_BYTES_LEN (length (file_handles ! file_idx))"
      by (auto simp: n IPV6_BYTES_LEN_def)
    with s have "sum_list (map length file_handles') < sum_list (map length file_handles)"
      by linarith
    then show ?thesis using False by (simp add: h heappush_def)
  qed
qed simp

fun unlink_all :: "world \<Rightarrow> path list \<Rightarrow> world \<times> (error + unit)" where
  "unlink_all w [] = (w, Inr ())"
| "unlink_all w (temp_path # temp_files) =
     (case unlink w temp_path of
        (w1, Inl e) \<Rightarrow> (w1, Inl e)
      | (w1, Inr u) \<Rightarrow> unlink_all w1 temp_files)"

text \<open>\<^verbatim>\<open>_external_sort\<close>: the run files, the result file made by a further \<^verbatim>\<open>mkstemp\<close>,
  the merge written to it, and only then the run files unlinked.  An exception leaves
  the function at once, with the storage as it is at that moment.\<close>

definition external_sort :: "world \<Rightarrow> path \<Rightarrow> world \<times> (error + path)" where
  "external_sort w input_path =
     (case read_file w input_path of
        None \<Rightarrow> (w, Inl FileNotFoundError)
      | Some data \<Rightarrow>
          (case split_sort w data [] of
             (w1, Inl e) \<Rightarrow> (w1, Inl e)
           | (w1, Inr temp_files) \<Rightarrow>
               (case mkstemp 0 w1 of
                  (w2, Inl e) \<Rightarrow> (w2, Inl e)
                | (w2, Inr result_path) \<Rightarrow>
                    (case open_runs w2 temp_files [] [] of
                       Inl e \<Rightarrow> (w2, Inl e)
                     | Inr (heap, file_handles) \<Rightarrow>
                         (case merge_loop heap file_handles [] of
                            (out, Some e) \<Rightarrow> (write_file w2 result_path (concat out), Inl e)
                          | (out, None) \<Rightarrow>
                              (case unlink_all (write_file w2 result_path (concat out)) temp_files of
                                 (w3, Inl e) \<Rightarrow> (w3, Inl e)
                               | (w3, Inr u) \<Rightarrow> (w3, Inr result_path)))))))"

text \<open>\<^verbatim>\<open>_count_unique_external\<close>: the sorted file is read back record by record and
  scanned, then unlinked.\<close>

definition count_unique_external :: "world \<Rightarrow> path \<Rightarrow> world \<times> (error + nat)" where
  "count_unique_external w partition_path =
     (case external_sort w partition_path of
        (w1, Inl e) \<Rightarrow> (w1, Inl e)
      | (w1, Inr sorted_path) \<Rightarrow>
          (case read_file w1 sorted_path of
             None \<Rightarrow> (w1, Inl FileNotFoundError)
           | Some data \<Rightarrow>
               (let unique_count = count_changes None 0 (read_records data) in
                case unlink w1 sorted_path of
                  (w2, Inl e) \<Rightarrow> (w2, Inl e)
                | (w2, Inr u) \<Rightarrow> (w2, Inr unique_count))))"

text \<open>\<^verbatim>\<open>PartitionProcessor.count_unique\<close>\<close>

definition PartitionProcessor_count_unique :: "world \<Rightarrow> path \<Rightarrow> world \<times> (error + nat)" where
  "PartitionProcessor_count_unique w partition_path =
     (case read_file w partition_path of
        None \<Rightarrow> (w, Inl FileNotFoundError)
      | Some data \<Rightarrow>
          (let file_size = length data in
           if file_size \<le> TARGET_PARTITION_SIZE
           then count_unique_in_memory w partition_path
           else count_unique_external w partition_path))"

section \<open>IPv6UniqueCounter\<close>

record IPv6UniqueCounter =
  memory_limit_mb :: int
  counter_temp_dir :: "nat option"

definition IPv6UniqueCounter_init :: "int \<Rightarrow> IPv6UniqueCounter" where
  "IPv6UniqueCounter_init limit = \<lparr>memory_limit_mb = limit, counter_temp_dir = None\<rparr>"

definition calculate_num_partitions :: "world \<Rightarrow> path \<Rightarrow> error + nat" where
  "calculate_num_partitions w input_path =
     (case read_file w input_path of
        None \<Rightarrow> Inl FileNotFoundError
      | Some data \<Rightarrow>
          (let file_size = length data;
               avg_line_length = 40;
               estimated_records = file_size div avg_line_length;
               target_records_per_partition = TARGET_PARTITION_SIZE div IPV6_BYTES_LEN;
               n = max 1 (estimated_records div target_records_per_partition)
           in Inr (min n 256)))"

text \<open>\<^verbatim>\<open>_process_line\<close>: whatever is raised while the line is parsed, hashed and written
  is caught, reported, and the line is left out.\<close>

definition process_line :: "string \<Rightarrow> PartitionWriter \<Rightarrow> nat \<Rightarrow> world \<Rightarrow> world" where
  "process_line line writer n w =
     (case to_canonical_bytes line of
        Inl e \<Rightarrow> print_stderr (LineError line e) w
      | Inr ip_bytes \<Rightarrow>
          (case get_partition ip_bytes n of
             Inl e \<Rightarrow> print_stderr (LineError line e) w
           | Inr part \<Rightarrow>
               (case PartitionWriter_write writer part ip_bytes w of
                  (w1, Inl e) \<Rightarrow> print_stderr (LineError line e) w1
                | (w1, Inr u) \<Rightarrow> w1)))"

text \<open>The loop of \<^verbatim>\<open>_distribute_addresses\<close> over the mapped file, from position
  \<^verbatim>\<open>start\<close> on: \<open>rest\<close> is \<^verbatim>\<open>mm[start:]\<close>.\<close>

function scan_lines :: "bytes \<Rightarrow> PartitionWriter \<Rightarrow> nat \<Rightarrow> world \<Rightarrow> world" where
  "scan_lines rest writer n w =
     (if CHR 0x0A \<notin> set rest
      then (let line = py_strip rest in
            if line \<noteq> [] then process_line line writer n w else w)
      else (let raw = takeWhile (\<lambda>c. c \<noteq> CHR 0x0A) rest;
                line = py_strip raw;
                w1 = (if line \<noteq> [] then process_line line writer n w else w)
            in scan_lines (drop (length raw + 1) rest) writer n w1))"
  by pat_completeness auto
termination
  by (relation "measure (\<lambda>(rest, writer, n, w). length rest)")
    (auto simp: length_pos_if_in_set intro!: diff_less)

definition distribute_addresses ::
  "IPv6UniqueCounter \<Rightarrow> path \<Rightarrow> nat \<Rightarrow> world \<Rightarrow> world \<times> (error + PartitionWriter)" where
  "distribute_addresses self input_path n w =
     (case PartitionWriter_init n (case counter_temp_dir self of Some d \<Rightarrow> d | None \<Rightarrow> 0) w of
        (w1, Inl e) \<Rightarrow> (w1, Inl e)
      | (w1, Inr writer) \<Rightarrow>
          (case read_file w1 input_path of
             None \<Rightarrow> (w1, Inl FileNotFoundError)
           | Some mm \<Rightarrow>
               (if mm = [] then (w1, Inl (ValueError EmptyMmap))
                else (scan_lines mm writer n w1, Inr writer))))"

text \<open>\<^verbatim>\<open>_process_partitions\<close>: the tasks are independent processes and their counts are
  added up, so the order in which they complete does not matter for the total; they
  are taken here in the order of the paths.  A task that raises is reported and
  contributes nothing.\<close>

fun process_partitions_loop :: "path list \<Rightarrow> nat \<Rightarrow> world \<Rightarrow> world \<times> nat" where
  "process_partitions_loop [] total_unique w = (w, total_unique)"
| "process_partitions_loop (p # ps) total_unique w =
     (case PartitionProcessor_count_unique w p of
        (w1, Inr unique_count) \<Rightarrow>
          process_partitions_loop ps (total_unique + unique_count)
            (print_stderr (PartitionCount p unique_count) w1)
      | (w1, Inl e) \<Rightarrow>
          process_partitions_loop ps total_unique (print_stderr (PartitionError p e) w1))"

definition process_partitions :: "path list \<Rightarrow> world \<Rightarrow> world \<times> (error + nat)" where
  "process_partitions partition_paths w =
     (case process_partitions_loop partition_paths 0 w of (w1, total_unique) \<Rightarrow> (w1, Inr total_unique))"

text \<open>\<^verbatim>\<open>IPv6UniqueCounter.count_unique\<close>.  The body of the \<^verbatim>\<open>with\<close> block first; leaving
  the block, with a result or with an exception, removes the temporary directory.\<close>

definition count_unique_body ::
  "IPv6UniqueCounter \<Rightarrow> path \<Rightarrow> path \<Rightarrow> world \<Rightarrow> world \<times> (error + unit)" where
  "count_unique_body self input_path output_path w =
     (case calculate_num_partitions w input_path of
        Inl e \<Rightarrow> (w, Inl e)
      | Inr n \<Rightarrow>
          (case distribute_addresses self input_path n (print_stderr (UsingPartitions n) w) of
             (w1, Inl e) \<Rightarrow> (w1, Inl e)
           | (w1, Inr partition_writer) \<Rightarrow>
               (case process_partitions (get_paths partition_writer) w1 of
                  (w2, Inl e) \<Rightarrow> (w2, Inl e)
                | (w2, Inr total_unique) \<Rightarrow>
                    (print_stderr (TotalUnique total_unique)
                       (write_file w2 output_path (str_nat total_unique)), Inr ()))))"

definition IPv6UniqueCounter_count_unique ::
  "IPv6UniqueCounter \<Rightarrow> path \<Rightarrow> path \<Rightarrow> world \<Rightarrow> world \<times> (error + unit)" where
  "IPv6UniqueCounter_count_unique self input_path output_path w =
     (let d = fresh_dir w;
          self' = self\<lparr>counter_temp_dir := Some d\<rparr>
      in case count_unique_body self' input_path output_path w of
           (w1, r) \<Rightarrow> (remove_dir d w1, r))"

section \<open>The program\<close>

record args =
  input_file :: string
  output_file :: string
  memory_limit :: int

text \<open>\<^verbatim>\<open>main\<close>: the new storage and the exit status (0 when \<^verbatim>\<open>main\<close> returns).\<close>

definition main :: "args \<Rightarrow> world \<Rightarrow> world \<times> nat" where
  "main a w =
     (if read_file w (User (input_file a)) = None
      then (print_stderr (InputNotFound (input_file a)) w, 1)
      else (let counter = IPv6UniqueCounter_init (memory_limit a) in
            case IPv6UniqueCounter_count_unique counter (User (input_file a)) (User (output_file a)) w of
              (w1, Inr u) \<Rightarrow> (print_stderr (ResultSaved (output_file a)) w1, 0)
            | (w1, Inl e) \<Rightarrow> (print_stderr (CriticalError e) w1, 1)))"


section \<open>Textual forms of an address\<close>

text \<open>
  What the specification calls the textual forms of an address: the fully expanded form,
  eight groups of one to four hexadecimal digits separated by colons, and the compressed
  form, where one \<^verbatim>\<open>::\<close> stands for one or more consecutive groups that are all zero.
  Letter case and leading zeros do not change the group a text stands for.
\<close>


definition is_hex :: "char \<Rightarrow> bool" where
  "is_hex c = (digit16 c \<noteq> None)"

definition hexval :: "string \<Rightarrow> nat" where
  "hexval s = foldl (\<lambda>a c. 16 * a + (case digit16 c of Some d \<Rightarrow> d | None \<Rightarrow> 0)) 0 s"

definition group_text :: "string \<Rightarrow> nat \<Rightarrow> bool" where
  "group_text s v = (s \<noteq> [] \<and> length s \<le> 4 \<and> list_all is_hex s \<and> hexval s = v)"

fun join_colon :: "string list \<Rightarrow> string" where
  "join_colon [] = []"
| "join_colon [g] = g"
| "join_colon (g # h # gs) = g @ CHR '':'' # join_colon (h # gs)"

datatype form = Expanded "string list" | Compressed "string list" "string list"

fun render :: "form \<Rightarrow> string" where
  "render (Expanded gs) = join_colon gs"
| "render (Compressed ls rs) = join_colon ls @ ''::'' @ join_colon rs"

fun denotes :: "form \<Rightarrow> nat list \<Rightarrow> bool" where
  "denotes (Expanded gs) vs = (length vs = 8 \<and> list_all2 group_text gs vs)"
| "denotes (Compressed ls rs) vs =
     (length vs = 8 \<and> length ls + length rs < 8 \<and>
      list_all2 group_text ls (take (length ls) vs) \<and>
      list_all (\<lambda>v. v = 0) (take (8 - length ls - length rs) (drop (length ls) vs)) \<and>
      list_all2 group_text rs (drop (8 - length rs) vs))"

definition key_of :: "nat list \<Rightarrow> bytes" where
  "key_of vs = concat (map (\<lambda>v. [char_of (v div 256), char_of (v mod 256)]) vs)"


section \<open>Notions used in the proofs about the external sort\<close>

text \<open>A file or file handle is aligned when it splits into records of 16 bytes.\<close>

definition aligned :: "bytes \<Rightarrow> bool" where
  "aligned h = (\<forall>r\<in>set (read_records h). length r = IPV6_BYTES_LEN)"

text \<open>The records that the open run files still hold.\<close>

definition pending :: "bytes list \<Rightarrow> bytes multiset" where
  "pending file_handles = (\<Sum>h\<leftarrow>file_handles. mset (read_records h))"

text \<open>The invariant of the merge loop: the heap holds the head of every run that is not
  exhausted, every run is sorted, and what was written is sorted and below the heap.\<close>

definition merge_inv :: "(bytes \<times> nat) list \<Rightarrow> bytes list \<Rightarrow> bytes list \<Rightarrow> bool" where
  "merge_inv heap file_handles out =
     (sorted heap \<and> distinct (map snd heap) \<and> sorted out \<and>
      (\<forall>(r, i)\<in>set heap.
          i < length file_handles \<and> length r = IPV6_BYTES_LEN \<and>
          (\<forall>x\<in>set out. x \<le> r) \<and> (\<forall>y\<in>set (read_records (file_handles ! i)). r \<le> y)) \<and>
      (\<forall>i<length file_handles.
          aligned (file_handles ! i) \<and> sorted (read_records (file_handles ! i)) \<and>
          (read_records (file_handles ! i) \<noteq> [] \<longrightarrow> i \<in> snd ` set heap)))"

text \<open>The equations of the loops that recurse on a condition are used by hand.\<close>

declare split_sort.simps [simp del]
declare scan_lines.simps [simp del]
declare str_nat.simps [simp del]


section \<open>Notions used in the statements about a whole run\<close>

text \<open>What one counting task gives for a partition path in a given store, and how
  \<^verbatim>\<open>_process_partitions\<close> reports it: a path that cannot be opened makes the task fail.\<close>

definition partition_count :: "world \<Rightarrow> path \<Rightarrow> nat" where
  "partition_count w p =
     (case read_file w p of None \<Rightarrow> 0 | Some d \<Rightarrow> card (set (read_records d)))"

definition partition_report :: "world \<Rightarrow> path \<Rightarrow> diag" where
  "partition_report w p =
     (case read_file w p of
        None \<Rightarrow> PartitionError p FileNotFoundError
      | Some d \<Rightarrow> PartitionCount p (card (set (read_records d))))"

text \<open>The lines of an input: the pieces between line feeds (the last one need not be
  terminated), stripped, without the empty ones; and the keys of the lines that parse.\<close>

fun split_lines :: "bytes \<Rightarrow> bytes list" where
  "split_lines [] = [[]]"
| "split_lines (c # cs) =
     (if c = CHR 0x0A then [] # split_lines cs
      else (case split_lines cs of [] \<Rightarrow> [[c]] | l # ls \<Rightarrow> (c # l) # ls))"

definition input_lines :: "bytes \<Rightarrow> string list" where
  "input_lines mm = filter (\<lambda>l. l \<noteq> []) (map py_strip (split_lines mm))"

definition keys_of_lines :: "string list \<Rightarrow> bytes list" where
  "keys_of_lines ls =
     concat (map (\<lambda>l. case to_canonical_bytes l of Inl e \<Rightarrow> [] | Inr k \<Rightarrow> [k]) ls)"

definition keys_of_input :: "bytes \<Rightarrow> bytes list" where
  "keys_of_input mm = keys_of_lines (input_lines mm)"

text \<open>The diagnostics for the lines that do not parse.\<close>

definition line_errors :: "string list \<Rightarrow> diag list" where
  "line_errors ls =
     concat (map (\<lambda>l. case to_canonical_bytes l of Inl e \<Rightarrow> [LineError l e] | Inr k \<Rightarrow> []) ls)"

text \<open>The keys that the hash sends to partition \<open>j\<close> out of \<open>n\<close>.\<close>

definition bucket :: "nat \<Rightarrow> bytes list \<Rightarrow> nat \<Rightarrow> bytes list" where
  "bucket n keys j = filter (\<lambda>k. hash_bytes k mod n = j) keys"

definition ascii :: "bytes \<Rightarrow> bool" where
  "ascii mm = list_all (\<lambda>c. (of_char c :: nat) < 128) mm"


section \<open>Canonicalisation of the textual forms\<close>

subsection \<open>Characters\<close>

lemma of_char_lt: "(of_char c :: nat) < 256"
  by (cases c) simp

lemma is_hex_not_space: "is_hex c \<Longrightarrow> \<not> is_space c"
  by (auto simp: is_hex_def digit16_def is_space_def Let_def split: if_splits)

lemma is_hex_not_cspace: "is_hex c \<Longrightarrow> \<not> is_cspace c"
  by (auto simp: is_hex_def digit16_def is_cspace_def Let_def split: if_splits)

lemma is_hex_not_colon: "is_hex c \<Longrightarrow> c \<noteq> CHR '':''"
  by (auto simp: is_hex_def digit16_def Let_def split: if_splits)

lemma is_hex_not_misc: "is_hex c \<Longrightarrow> c \<noteq> CHR ''_'' \<and> c \<noteq> CHR ''+'' \<and> c \<noteq> CHR ''-'' \<and> c \<noteq> CHR ''x'' \<and> c \<noteq> CHR ''X''"
  by (auto simp: is_hex_def digit16_def Let_def split: if_splits)

lemma colon_not_space: "\<not> is_space (CHR '':'')"
  by (simp add: is_space_def)

lemma lower_colon: "lower_char (CHR '':'') = CHR '':''"
  by (simp add: lower_char_def)

lemma digit16_lower: "is_hex c \<Longrightarrow> digit16 (lower_char c) = digit16 c"
  by (auto simp: is_hex_def digit16_def lower_char_def Let_def split: if_splits)

lemma is_hex_lower: "is_hex c \<Longrightarrow> is_hex (lower_char c)"
  by (simp add: is_hex_def digit16_lower[unfolded is_hex_def])


subsection \<open>Splitting and joining\<close>

definition hex_group :: "string \<Rightarrow> bool" where
  "hex_group s = (s \<noteq> [] \<and> list_all is_hex s)"

lemma py_strip_id:
  assumes "s = [] \<or> (\<not> is_space (hd s) \<and> \<not> is_space (last s))"
  shows "py_strip s = s"
proof (cases "s = []")
  case False
  then have "dropWhile is_space s = s"
    using assms by (simp add: dropWhile_eq_self_iff)
  moreover have "dropWhile is_space (rev s) = rev s"
    using assms False by (simp add: dropWhile_eq_self_iff hd_rev)
  ultimately show ?thesis by (simp add: py_strip_def)
qed (simp add: py_strip_def)

lemma split_colon_free: "CHR '':'' \<notin> set g \<Longrightarrow> split_colon g = [g]"
  by (induction g) auto

lemma split_colon_append: "CHR '':'' \<notin> set g \<Longrightarrow> split_colon (g @ CHR '':'' # rest) = g # split_colon rest"
  by (induction g) auto

lemma split_colon_join:
  "gs \<noteq> [] \<Longrightarrow> \<forall>g\<in>set gs. CHR '':'' \<notin> set g \<Longrightarrow> split_colon (join_colon gs) = gs"
  by (induction gs rule: join_colon.induct) (auto simp: split_colon_free split_colon_append)

lemma hex_group_colon_free: "hex_group g \<Longrightarrow> CHR '':'' \<notin> set g"
  using is_hex_not_colon by (auto simp: hex_group_def list_all_iff)

lemma join_colon_Cons: "join_colon (g # gs) = (if gs = [] then g else g @ CHR '':'' # join_colon gs)"
  by (cases gs) auto

lemma hex_group_hd: "hex_group g \<Longrightarrow> is_hex (hd g)"
  by (cases g) (auto simp: hex_group_def)

lemma join_hd: "list_all hex_group gs \<Longrightarrow> gs \<noteq> [] \<Longrightarrow> join_colon gs \<noteq> [] \<and> is_hex (hd (join_colon gs))"
  by (cases gs) (auto simp: join_colon_Cons hd_append hex_group_hd, auto simp: hex_group_def)

lemma join_last: "list_all hex_group gs \<Longrightarrow> gs \<noteq> [] \<Longrightarrow> is_hex (last (join_colon gs))"
proof (induction gs rule: join_colon.induct)
  case (2 g)
  then show ?case by (auto simp: hex_group_def list_all_iff)
next
  case (3 g h gs)
  then have "join_colon (h # gs) \<noteq> []" using join_hd[of "h # gs"] by simp
  with 3 show ?case by simp
qed simp


lemma has_dcolon_hex_Cons: "is_hex c \<Longrightarrow> has_dcolon (c # s) = has_dcolon s"
  by (cases s) (auto dest: is_hex_not_colon)

lemma has_dcolon_hex_append: "list_all is_hex g \<Longrightarrow> has_dcolon (g @ s) = has_dcolon s"
  by (induction g) (auto simp: has_dcolon_hex_Cons)

lemma has_dcolon_colon_hex: "s \<noteq> [] \<Longrightarrow> is_hex (hd s) \<Longrightarrow> has_dcolon (CHR '':'' # s) = has_dcolon s"
  by (cases s) (auto dest: is_hex_not_colon)

lemma no_dcolon_join: "list_all hex_group gs \<Longrightarrow> \<not> has_dcolon (join_colon gs)"
proof (induction gs rule: join_colon.induct)
  case (2 g)
  then show ?case using has_dcolon_hex_append[of g "[]"] by (simp add: hex_group_def)
next
  case (3 g h gs)
  then have "join_colon (h # gs) \<noteq> [] \<and> is_hex (hd (join_colon (h # gs)))"
    using join_hd[of "h # gs"] by simp
  with 3 show ?case
    by (simp add: has_dcolon_hex_append hex_group_def has_dcolon_colon_hex)
qed simp

lemma has_dcolon_mid: "has_dcolon (u @ ''::'' @ w)"
  by (induction u rule: has_dcolon.induct) auto

lemma split_dcolon_none: "\<not> has_dcolon w \<Longrightarrow> split_dcolon w = [w]"
  by (induction w rule: split_dcolon.induct) auto

lemma split_dcolon_mid:
  "\<not> has_dcolon u \<Longrightarrow> u = [] \<or> last u \<noteq> CHR '':'' \<Longrightarrow> \<not> has_dcolon w
   \<Longrightarrow> split_dcolon (u @ ''::'' @ w) = [u, w]"
proof (induction u rule: has_dcolon.induct)
  case (1 a b cs)
  then show ?case by auto
qed (simp_all add: split_dcolon_none)


subsection \<open>Lower case\<close>

lemma py_lower_join: "py_lower (join_colon gs) = join_colon (map py_lower gs)"
  by (induction gs rule: join_colon.induct) (auto simp: py_lower_def lower_colon)

lemma py_lower_append: "py_lower (a @ b) = py_lower a @ py_lower b"
  by (simp add: py_lower_def)

lemma py_lower_dcolon: "py_lower ''::'' = ''::''"
  by (simp add: py_lower_def lower_colon)

lemma hexval_foldl_lower:
  "list_all is_hex s \<Longrightarrow>
   foldl (\<lambda>a c. 16 * a + (case digit16 c of Some d \<Rightarrow> d | None \<Rightarrow> 0)) acc (map lower_char s)
   = foldl (\<lambda>a c. 16 * a + (case digit16 c of Some d \<Rightarrow> d | None \<Rightarrow> 0)) acc s"
  by (induction s arbitrary: acc) (auto simp: digit16_lower)

lemma hexval_lower: "list_all is_hex s \<Longrightarrow> hexval (py_lower s) = hexval s"
  by (simp add: hexval_def py_lower_def hexval_foldl_lower)

lemma hex_group_lower: "hex_group s \<Longrightarrow> hex_group (py_lower s)"
  by (auto simp: hex_group_def py_lower_def list_all_iff is_hex_lower)

subsection \<open>The value of a group\<close>

lemma scan_digits_hex:
  "list_all is_hex s \<Longrightarrow>
   scan_digits False acc s =
     Some (foldl (\<lambda>a c. 16 * a + int (case digit16 c of Some d \<Rightarrow> d | None \<Rightarrow> 0)) acc s, [])"
proof (induction s arbitrary: acc)
  case (Cons c s)
  then obtain d where "digit16 c = Some d" by (auto simp: is_hex_def)
  moreover have "c \<noteq> CHR ''_''" using Cons.prems is_hex_not_misc by auto
  ultimately show ?case using Cons by simp
qed simp

lemma foldl_int_hex:
  "foldl (\<lambda>a c. 16 * a + int (case digit16 c of Some d \<Rightarrow> d | None \<Rightarrow> 0)) (int acc) s
   = int (foldl (\<lambda>a c. 16 * a + (case digit16 c of Some d \<Rightarrow> d | None \<Rightarrow> 0)) acc s)"
proof (induction s arbitrary: acc)
  case (Cons c s)
  have e: "16 * int acc + int (case digit16 c of Some d \<Rightarrow> d | None \<Rightarrow> 0)
        = int (16 * acc + (case digit16 c of Some d \<Rightarrow> d | None \<Rightarrow> 0))" by simp
  show ?case unfolding foldl_Cons e by (rule Cons)
qed simp

lemma py_int16_hex:
  assumes "s \<noteq> []" "list_all is_hex s" "s = ''0'' \<or> hd s \<noteq> CHR ''0''"
  shows "py_int16 s = Some (int (hexval s))"
proof -
  obtain c cs where s: "s = c # cs" using assms(1) by (cases s) auto
  have hc: "is_hex c" using assms(2) s by simp
  have d1: "dropWhile is_cspace s = s" using s hc is_hex_not_cspace by simp
  have sg: "c \<noteq> CHR ''+''" "c \<noteq> CHR ''-''" "c \<noteq> CHR ''_''" using hc is_hex_not_misc by auto
  have pre: "skip_prefix16 s = s"
  proof (cases cs)
    case Nil
    then show ?thesis by (simp add: skip_prefix16_def s)
  next
    case (Cons b rest)
    then have "c \<noteq> CHR ''0''" using assms(3) s by auto
    then show ?thesis by (simp add: skip_prefix16_def s Cons)
  qed
  have sc: "scan_digits False 0 s = Some (int (hexval s), [])"
    using scan_digits_hex[OF assms(2), of 0] foldl_int_hex[of 0 s] by (simp add: hexval_def)
  show ?thesis
    unfolding py_int16_def d1 Let_def
    using sg pre sc s by (simp add: s)
qed

lemma hexval_bound_foldl:
  "list_all is_hex s \<Longrightarrow>
   foldl (\<lambda>a c. 16 * a + (case digit16 c of Some d \<Rightarrow> d | None \<Rightarrow> 0)) acc s < (acc + 1) * 16 ^ length s"
proof (induction s arbitrary: acc)
  case (Cons c s)
  then obtain d where d: "digit16 c = Some d" by (auto simp: is_hex_def)
  then have "d < 16" by (auto simp: digit16_def Let_def split: if_splits)
  have "foldl (\<lambda>a c. 16 * a + (case digit16 c of Some d \<Rightarrow> d | None \<Rightarrow> 0)) (16 * acc + d) s
        < (16 * acc + d + 1) * 16 ^ length s" using Cons by simp
  also have "\<dots> \<le> (16 * (acc + 1)) * 16 ^ length s"
    using \<open>d < 16\<close> by (intro mult_right_mono) auto
  finally show ?case using d by (simp add: algebra_simps)
qed simp

lemma hexval_bound: "list_all is_hex s \<Longrightarrow> length s \<le> 4 \<Longrightarrow> hexval s < 65536"
proof -
  assume a: "list_all is_hex s" "length s \<le> 4"
  have "hexval s < 16 ^ length s" using hexval_bound_foldl[OF a(1), of 0] by (simp add: hexval_def)
  also have "\<dots> \<le> (16::nat) ^ 4" using a(2) by (intro power_increasing) auto
  finally show ?thesis by simp
qed

lemma hexval_lstrip0: "hexval (lstrip0 s) = hexval s"
proof -
  have "\<And>acc. acc = 0 \<Longrightarrow> foldl (\<lambda>a c. 16 * a + (case digit16 c of Some d \<Rightarrow> d | None \<Rightarrow> 0)) acc (dropWhile (\<lambda>c. c = CHR ''0'') s)
     = foldl (\<lambda>a c. 16 * a + (case digit16 c of Some d \<Rightarrow> d | None \<Rightarrow> 0)) acc s"
    by (induction s) (auto simp: digit16_def)
  then show ?thesis by (simp add: hexval_def lstrip0_def)
qed

lemma hexval_zero: "hexval ''0'' = 0"
  by (simp add: hexval_def digit16_def)

lemma list_all_lstrip0: "list_all is_hex s \<Longrightarrow> list_all is_hex (lstrip0 s)"
  unfolding lstrip0_def by (induction s) auto

lemma hd_dropWhile_eq:
  "dropWhile (\<lambda>c. c = z) s \<noteq> [] \<Longrightarrow> hd (dropWhile (\<lambda>c. c = z) s) \<noteq> z"
  by (drule hd_dropWhile)

lemma lstrip0_hd: "lstrip0 s \<noteq> [] \<Longrightarrow> hd (lstrip0 s) \<noteq> CHR ''0''"
  unfolding lstrip0_def by (rule hd_dropWhile_eq)

lemma lstrip0_empty_hexval: "lstrip0 s = [] \<Longrightarrow> hexval s = 0"
  using hexval_lstrip0[of s] by (simp add: hexval_def)

lemma is_hex_zero: "is_hex (CHR ''0'')"
  by (simp add: is_hex_def digit16_def)

lemma group_value_hex:
  assumes "hex_group s"
  shows "group_value s = Inr (int (hexval s))"
proof (cases "s = ''0''")
  case True
  then show ?thesis by (simp add: group_value_def hexval_zero)
next
  case False
  have hs: "list_all is_hex s" "s \<noteq> []" using assms by (auto simp: hex_group_def)
  show ?thesis
  proof (cases "lstrip0 s = []")
    case True
    have "py_int16 ''0'' = Some (int (hexval ''0''))"
      by (rule py_int16_hex) (simp_all add: is_hex_zero)
    then show ?thesis
      using True False hs lstrip0_empty_hexval[OF True]
      by (simp add: group_value_def hexval_zero)
  next
    case ne: False
    have "py_int16 (lstrip0 s) = Some (int (hexval (lstrip0 s)))"
      using ne list_all_lstrip0[OF hs(1)] lstrip0_hd[OF ne] by (intro py_int16_hex) simp_all
    then show ?thesis
      using ne False hs by (simp add: group_value_def hexval_lstrip0)
  qed
qed

lemma group_text_lower:
  assumes "group_text s v"
  shows "group_text (py_lower s) v"
proof -
  have a: "list_all is_hex s" using assms by (simp add: group_text_def)
  have b: "list_all is_hex (py_lower s)"
    using a by (auto simp: py_lower_def list_all_iff is_hex_lower)
  have c: "length (py_lower s) = length s" "(py_lower s = []) = (s = [])"
    by (simp_all add: py_lower_def)
  show ?thesis using assms hexval_lower[OF a] b c by (simp add: group_text_def)
qed

lemma group_text_hex_group: "group_text s v \<Longrightarrow> hex_group s"
  by (simp add: group_text_def hex_group_def)

lemma key_of_append: "key_of (xs @ ys) = key_of xs @ key_of ys"
  by (simp add: key_of_def)

lemma groups_to_bytes_text:
  "list_all2 group_text gs vs \<Longrightarrow> groups_to_bytes gs = Inr (key_of vs)"
proof (induction gs vs rule: list_all2_induct)
  case Nil
  then show ?case by (simp add: key_of_def)
next
  case (Cons g gs v vs)
  have gv: "group_value g = Inr (int v)"
    using Cons(1) group_value_hex[of g] by (simp add: group_text_def hex_group_def)
  have "v < 65536" using Cons(1) hexval_bound[of g] by (auto simp: group_text_def)
  then have "pack_H (int v) = Inr [char_of (v div 256), char_of (v mod 256)]"
    by (simp add: pack_H_def)
  then show ?case using gv Cons by (simp add: key_of_def)
qed

lemma groups_to_bytes_append:
  "groups_to_bytes xs = Inr a \<Longrightarrow> groups_to_bytes ys = Inr b
   \<Longrightarrow> groups_to_bytes (xs @ ys) = Inr (a @ b)"
  by (induction xs arbitrary: a) (auto split: sum.splits)

lemma groups_to_bytes_zeros:
  "groups_to_bytes (replicate m ''0'') = Inr (key_of (replicate m 0))"
  by (induction m) (auto simp: key_of_def group_value_def pack_H_def)

lemma list_all2_lower:
  "list_all2 group_text gs vs \<Longrightarrow> list_all2 group_text (map py_lower gs) vs"
  by (induction gs vs rule: list_all2_induct) (auto simp: group_text_lower)

lemma list_all2_hex_group:
  "list_all2 group_text gs vs \<Longrightarrow> list_all hex_group gs"
  by (induction gs vs rule: list_all2_induct) (auto simp: group_text_hex_group)

lemma join_split:
  assumes "list_all hex_group gs"
  shows "(if join_colon gs \<noteq> [] then split_colon (join_colon gs) else []) = gs"
proof (cases "gs = []")
  case False
  have "\<forall>g\<in>set gs. CHR '':'' \<notin> set g"
    using assms hex_group_colon_free by (auto simp: list_all_iff)
  then show ?thesis using False join_hd[OF assms False] by (simp add: split_colon_join)
qed simp

lemma parse_expanded:
  assumes "length vs = 8" "list_all2 group_text gs vs"
  shows "to_canonical_bytes (join_colon gs) = Inr (key_of vs)"
proof -
  define gs' where "gs' = map py_lower gs"
  have t: "list_all2 group_text gs' vs" using assms(2) by (simp add: gs'_def list_all2_lower)
  then have h: "list_all hex_group gs'" by (rule list_all2_hex_group)
  have len: "length gs' = 8" using t assms(1) by (simp add: list_all2_lengthD)
  then have ne: "gs' \<noteq> []" by auto
  have low: "py_lower (join_colon gs) = join_colon gs'" by (simp add: py_lower_join gs'_def)
  have strip: "py_strip (join_colon gs') = join_colon gs'"
    using join_hd[OF h ne] join_last[OF h ne] is_hex_not_space by (intro py_strip_id) auto
  have nd: "\<not> has_dcolon (join_colon gs')" using h by (rule no_dcolon_join)
  have sp: "split_colon (join_colon gs') = gs'"
    using join_split[OF h] join_hd[OF h ne] by simp
  show ?thesis
    unfolding to_canonical_bytes_def low strip Let_def
    using nd sp len groups_to_bytes_text[OF t] by simp
qed

lemma parse_compressed:
  assumes "length vs = 8" "length ls + length rs < 8"
    "list_all2 group_text ls (take (length ls) vs)"
    "list_all (\<lambda>v. v = 0) (take (8 - length ls - length rs) (drop (length ls) vs))"
    "list_all2 group_text rs (drop (8 - length rs) vs)"
  shows "to_canonical_bytes (join_colon ls @ ''::'' @ join_colon rs) = Inr (key_of vs)"
proof -
  define ls' where "ls' = map py_lower ls"
  define rs' where "rs' = map py_lower rs"
  define m where "m = 8 - length ls - length rs"
  define addr where "addr = join_colon ls' @ ''::'' @ join_colon rs'"
  have tl: "list_all2 group_text ls' (take (length ls) vs)"
    using assms(3) by (simp add: ls'_def list_all2_lower)
  have tr: "list_all2 group_text rs' (drop (8 - length rs) vs)"
    using assms(5) by (simp add: rs'_def list_all2_lower)
  have hl: "list_all hex_group ls'" using tl by (rule list_all2_hex_group)
  have hr: "list_all hex_group rs'" using tr by (rule list_all2_hex_group)
  have low: "py_lower (join_colon ls @ ''::'' @ join_colon rs) = addr"
    by (simp add: py_lower_append py_lower_join py_lower_dcolon ls'_def rs'_def addr_def
        del: append.simps)
  have hd_ok: "\<not> is_space (hd addr)"
  proof (cases "ls' = []")
    case True
    then show ?thesis by (simp add: addr_def colon_not_space)
  next
    case False
    then show ?thesis using join_hd[OF hl False] is_hex_not_space by (simp add: addr_def hd_append)
  qed
  have last_ok: "\<not> is_space (last addr)"
  proof (cases "rs' = []")
    case True
    then show ?thesis by (simp add: addr_def colon_not_space)
  next
    case False
    then show ?thesis using join_hd[OF hr False] join_last[OF hr False] is_hex_not_space
      by (simp add: addr_def)
  qed
  have strip: "py_strip addr = addr" using hd_ok last_ok by (intro py_strip_id) simp
  have hd: "has_dcolon addr" unfolding addr_def by (rule has_dcolon_mid)
  have lastl: "join_colon ls' = [] \<or> last (join_colon ls') \<noteq> CHR '':''"
  proof (cases "ls' = []")
    case False
    then show ?thesis using join_last[OF hl False] is_hex_not_colon by auto
  qed simp
  have sp: "split_dcolon addr = [join_colon ls', join_colon rs']"
    unfolding addr_def
    using no_dcolon_join[OF hl] no_dcolon_join[OF hr] lastl by (intro split_dcolon_mid) auto
  have lens: "length ls' = length ls" "length rs' = length rs" by (simp_all add: ls'_def rs'_def)
  have miss: "8 - int (length ls') - int (length rs') = int m" "\<not> int m < 0"
    using assms(2) by (simp_all add: lens m_def)
  have zeros: "take m (drop (length ls) vs) = replicate m 0"
    using assms(4) assms(1) assms(2)
    by (intro replicate_eqI) (auto simp: m_def list_all_iff)
  have split_vs: "vs = take (length ls) vs @ take m (drop (length ls) vs) @ drop (8 - length rs) vs"
  proof -
    have "drop (8 - length rs) vs = drop m (drop (length ls) vs)"
      using assms(2) by (simp add: m_def add.commute)
    show ?thesis unfolding \<open>drop (8 - length rs) vs = drop m (drop (length ls) vs)\<close>
      by (simp only: append_take_drop_id)
  qed
  have "groups_to_bytes (ls' @ replicate m ''0'' @ rs')
        = Inr (key_of (take (length ls) vs) @ key_of (replicate m 0) @ key_of (drop (8 - length rs) vs))"
    by (intro groups_to_bytes_append groups_to_bytes_text tl tr groups_to_bytes_zeros)
  also have "\<dots> = Inr (key_of vs)"
    using split_vs zeros by (metis key_of_append)
  finally have g: "groups_to_bytes (ls' @ replicate m ''0'' @ rs') = Inr (key_of vs)" .
  show ?thesis
    unfolding to_canonical_bytes_def low strip Let_def expand_compressed_def sp
    using hd g miss join_split[OF hl] join_split[OF hr] by simp
qed

lemma denotes_key: "denotes f vs \<Longrightarrow> to_canonical_bytes (render f) = Inr (key_of vs)"
  by (cases f) (auto simp: parse_expanded parse_compressed simp del: append.simps)

lemma key_of_length: "length (key_of vs) = 2 * length vs"
  by (induction vs) (auto simp: key_of_def)


text \<open>
  Claim C4.  Any two textual forms of the same address, compressed with \<^verbatim>\<open>::\<close> or fully
  expanded, in any letter case and with or without leading zeros in the groups, are
  parsed by \<^verbatim>\<open>to_canonical_bytes\<close> to the same key, which has 16 bytes.
\<close>

theorem canonical_forms_agree:
  "denotes f vs \<Longrightarrow> denotes g vs \<Longrightarrow>
   to_canonical_bytes (render f) = to_canonical_bytes (render g) \<and>
   (\<exists>key. to_canonical_bytes (render f) = Inr key \<and> length key = 16)"
proof -
  assume f: "denotes f vs" and g: "denotes g vs"
  have "length vs = 8" using f by (cases f) auto
  then show ?thesis using f g by (simp add: denotes_key key_of_length)
qed

theorem canonical_forms_agree_witness:
  "denotes (Compressed [''2001'', ''db8''] [''1'']) [8193, 3512, 0, 0, 0, 0, 0, 1] \<and>
   denotes (Expanded [''2001'', ''0db8'', ''0000'', ''0000'', ''0000'', ''0000'', ''0000'', ''0001''])
     [8193, 3512, 0, 0, 0, 0, 0, 1] \<and>
   to_canonical_bytes ''2001:db8::1'' =
     to_canonical_bytes ''2001:0db8:0000:0000:0000:0000:0000:0001'' \<and>
   (\<exists>key. to_canonical_bytes ''2001:db8::1'' = Inr key \<and> length key = 16)"
proof -
  have f: "denotes (Compressed [''2001'', ''db8''] [''1'']) [8193, 3512, 0, 0, 0, 0, 0, 1]"
    by (simp add: group_text_def hexval_def digit16_def is_hex_def)
  have g: "denotes (Expanded [''2001'', ''0db8'', ''0000'', ''0000'', ''0000'', ''0000'', ''0000'', ''0001''])
     [8193, 3512, 0, 0, 0, 0, 0, 1]"
    by (simp add: group_text_def hexval_def digit16_def is_hex_def)
  have r1: "render (Compressed [''2001'', ''db8''] [''1'']) = ''2001:db8::1''"
    by simp
  have r2: "render (Expanded [''2001'', ''0db8'', ''0000'', ''0000'', ''0000'', ''0000'', ''0000'', ''0001''])
            = ''2001:0db8:0000:0000:0000:0000:0000:0001''"
    by simp
  note c = canonical_forms_agree[OF f g, unfolded r1 r2]
  show ?thesis by (rule conjI[OF f conjI[OF g c]])
qed


section \<open>Counting the distinct records of one partition\<close>

subsection \<open>Records of a file\<close>

lemma read_records_append:
  assumes "length r = IPV6_BYTES_LEN"
  shows "read_records (r @ xs) = r # read_records xs"
proof -
  have "r @ xs \<noteq> []" using assms by (auto simp: IPV6_BYTES_LEN_def)
  then obtain c cs where e: "r @ xs = c # cs" by (cases "r @ xs") auto
  have "read_records (c # cs) = take IPV6_BYTES_LEN (c # cs) # read_records (drop IPV6_BYTES_LEN (c # cs))"
    by (simp only: read_records.simps)
  then have "read_records (r @ xs)
             = take IPV6_BYTES_LEN (r @ xs) # read_records (drop IPV6_BYTES_LEN (r @ xs))"
    unfolding e .
  then show ?thesis using assms by simp
qed

lemma read_records_concat:
  "\<forall>r\<in>set rs. length r = IPV6_BYTES_LEN \<Longrightarrow> read_records (concat rs) = rs"
  by (induction rs) (simp_all add: read_records_append)

lemma take_concat_records:
  "\<forall>r\<in>set rs. length r = k \<Longrightarrow> take (n * k) (concat rs) = concat (take n rs)"
proof (induction rs arbitrary: n)
  case (Cons r rs)
  show ?case
  proof (cases n)
    case (Suc m)
    then show ?thesis using Cons by simp
  qed simp
qed simp

lemma drop_concat_records:
  "\<forall>r\<in>set rs. length r = k \<Longrightarrow> drop (n * k) (concat rs) = concat (drop n rs)"
proof (induction rs arbitrary: n)
  case (Cons r rs)
  show ?case
  proof (cases n)
    case (Suc m)
    then show ?thesis using Cons by simp
  qed simp
qed simp

subsection \<open>The scan of a sorted list\<close>

lemma count_changes_sorted_Some:
  "sorted xs \<Longrightarrow> \<forall>x\<in>set xs. p \<le> x \<Longrightarrow>
   count_changes (Some p) n xs = n + card (set xs - {p})"
proof (induction xs arbitrary: p n)
  case Nil
  then show ?case by simp
next
  case (Cons x xs)
  show ?case
  proof (cases "x = p")
    case True
    then show ?thesis using Cons by simp
  next
    case False
    have le: "\<forall>y\<in>set xs. x \<le> y" using Cons.prems(1) by simp
    have "p < x" using False Cons.prems(2) by auto
    then have pn: "p \<notin> set (x # xs)" using le by auto
    have "count_changes (Some p) n (x # xs) = count_changes (Some x) (n + 1) xs"
      using False by simp
    also have "\<dots> = n + 1 + card (set xs - {x})"
      using Cons.IH[of x "n + 1"] Cons.prems(1) le by simp
    also have "\<dots> = n + card (insert x (set xs))"
      by (simp add: card.insert_remove)
    finally show ?thesis using pn by simp
  qed
qed

lemma count_changes_sorted:
  "sorted xs \<Longrightarrow> count_changes None 0 xs = card (set xs)"
proof (cases xs)
  case (Cons x ys)
  assume s: "sorted xs"
  then have "count_changes (Some x) 1 ys = 1 + card (set ys - {x})"
    using Cons by (intro count_changes_sorted_Some) auto
  then show ?thesis using Cons by (simp add: card.insert_remove)
qed simp

lemma count_unique_in_memory_correct:
  assumes "read_file w p = Some (concat rs)" "\<forall>r\<in>set rs. length r = IPV6_BYTES_LEN"
  shows "count_unique_in_memory w p = (w, Inr (card (set rs)))"
  using assms count_changes_sorted[of "sort rs"]
  by (simp add: count_unique_in_memory_def read_records_concat)


section \<open>The file store\<close>

lemma fold_max_ge: "m \<le> fold (\<lambda>p m. max (Suc (f p)) m) ps (m::nat)"
proof (induction ps arbitrary: m)
  case (Cons p ps)
  have "m \<le> max (Suc (f p)) m" by simp
  also have "\<dots> \<le> fold (\<lambda>p m. max (Suc (f p)) m) ps (max (Suc (f p)) m)" by (rule Cons)
  finally show ?case by simp
qed simp

lemma fold_max_gt: "p \<in> set ps \<Longrightarrow> f p < fold (\<lambda>p m. max (Suc (f p)) m) ps (m::nat)"
proof (induction ps arbitrary: m)
  case (Cons q ps)
  show ?case
  proof (cases "p = q")
    case True
    have "Suc (f q) \<le> max (Suc (f q)) m" by simp
    also have "\<dots> \<le> fold (\<lambda>p m. max (Suc (f p)) m) ps (max (Suc (f q)) m)" by (rule fold_max_ge)
    finally show ?thesis using True by simp
  next
    case False
    then show ?thesis using Cons by simp
  qed
qed simp

lemma fresh_index_fresh: "TempFile d (fresh_index d fs) \<notin> fst ` set fs"
proof
  assume "TempFile d (fresh_index d fs) \<in> fst ` set fs"
  then have "TempFile d (fresh_index d fs) \<in> set (filter (in_dir d) (map fst fs))" by simp
  then have "file_index (TempFile d (fresh_index d fs)) < fresh_index d fs"
    unfolding fresh_index_def by (rule fold_max_gt)
  then show False by simp
qed

lemma fresh_dir_fresh: "p \<in> fst ` set (files w) \<Longrightarrow> \<not> in_dir (fresh_dir w) p"
proof
  assume a: "p \<in> fst ` set (files w)" and b: "in_dir (fresh_dir w) p"
  from a have "p \<in> set (map fst (files w))" by simp
  then have "dir_index p < fresh_dir w" unfolding fresh_dir_def by (rule fold_max_gt)
  then show False using b by (cases p) auto
qed

lemma fresh_dir_pos: "0 < fresh_dir w"
  using fold_max_ge[of 1 dir_index "map fst (files w)"] by (simp add: fresh_dir_def)

lemma mkstemp_unlimited:
  assumes "tmp_limit w = None"
  shows "mkstemp d w =
           (w\<lparr>files := files w @ [(TempFile d (fresh_index d (files w)), [])]\<rparr>,
            Inr (TempFile d (fresh_index d (files w))))"
  using assms by (simp add: mkstemp_def Let_def)

lemma update_append_last:
  "k \<notin> fst ` set xs \<Longrightarrow> AList.update k v (xs @ [(k, x)]) = xs @ [(k, v)]"
  by (induction xs) auto

lemma update_append_mid:
  "k \<notin> fst ` set xs \<Longrightarrow> AList.update k v (xs @ (k, x) # ys) = xs @ (k, v) # ys"
  by (induction xs) auto

lemma map_of_append_left: "k \<notin> fst ` set ys \<Longrightarrow> map_of (xs @ ys) k = map_of xs k"
proof (induction xs)
  case Nil
  then have "map_of ys k = None" by (simp add: map_of_eq_None_iff)
  then show ?case by simp
next
  case (Cons x xs)
  then show ?case by (cases x) simp
qed

lemma map_of_append_right: "k \<notin> fst ` set xs \<Longrightarrow> map_of (xs @ ys) k = map_of ys k"
  by (induction xs) auto

lemma delete_notin: "k \<notin> fst ` set xs \<Longrightarrow> AList.delete k xs = xs"
  by (induction xs) auto

lemma delete_append: "AList.delete k (xs @ ys) = AList.delete k xs @ AList.delete k ys"
  by (induction xs) auto

lemma write_file_last:
  "p \<notin> fst ` set F \<Longrightarrow> write_file (w\<lparr>files := F @ [(p, x)]\<rparr>) p data = w\<lparr>files := F @ [(p, data)]\<rparr>"
  by (simp add: write_file_def update_append_last)

lemma unlink_all_zip:
  assumes "distinct ps" "length ps = length runs"
    "set ps \<inter> fst ` set F = {}" "set ps \<inter> fst ` set G = {}"
  shows "unlink_all (w\<lparr>files := F @ zip ps runs @ G\<rparr>) ps = (w\<lparr>files := F @ G\<rparr>, Inr ())"
  using assms
proof (induction ps arbitrary: runs F)
  case Nil
  then show ?case by simp
next
  case (Cons p ps)
  then obtain r rs where runs: "runs = r # rs" by (cases runs) auto
  have pF: "p \<notin> fst ` set F" and pG: "p \<notin> fst ` set G" using Cons.prems by auto
  have pz: "p \<notin> fst ` set (zip ps rs)" using Cons.prems(1) by (auto dest: set_zip_leftD)
  have rd: "read_file (w\<lparr>files := F @ zip (p # ps) runs @ G\<rparr>) p = Some r"
    using pF by (simp add: read_file_def runs map_of_append_right del: map_of_append)
  have del: "AList.delete p (F @ zip (p # ps) runs @ G) = F @ zip ps rs @ G"
    using pF pG pz by (simp add: runs delete_append delete_notin)
  have "unlink_all (w\<lparr>files := F @ zip ps rs @ G\<rparr>) ps = (w\<lparr>files := F @ G\<rparr>, Inr ())"
    using Cons.prems runs by (intro Cons.IH) auto
  then show ?case using rd del by (simp add: unlink_def)
qed


section \<open>The k-way merge\<close>

subsection \<open>Aligned files\<close>

lemma read_records_Nil_iff: "read_records h = [] \<longleftrightarrow> h = []"
  by (cases h) simp_all

lemma read_records_step:
  "h \<noteq> [] \<Longrightarrow>
   read_records h = take IPV6_BYTES_LEN h # read_records (drop IPV6_BYTES_LEN h)"
proof (cases h)
  case (Cons a l)
  show "h \<noteq> [] \<Longrightarrow> ?thesis" unfolding Cons by (simp only: read_records.simps)
qed simp

lemma aligned_Nil: "aligned []"
  by (simp add: aligned_def)

lemma aligned_concat: "\<forall>r\<in>set rs. length r = IPV6_BYTES_LEN \<Longrightarrow> aligned (concat rs)"
  by (simp add: aligned_def read_records_concat)

lemma aligned_step:
  assumes "aligned h" "h \<noteq> []"
  shows "length (take IPV6_BYTES_LEN h) = IPV6_BYTES_LEN"
    and "aligned (drop IPV6_BYTES_LEN h)"
    and "take IPV6_BYTES_LEN h \<noteq> []"
proof -
  note s = read_records_step[OF assms(2)]
  show l: "length (take IPV6_BYTES_LEN h) = IPV6_BYTES_LEN"
    using assms(1) unfolding aligned_def s by simp
  show "aligned (drop IPV6_BYTES_LEN h)"
    using assms(1) unfolding aligned_def s by simp
  show "take IPV6_BYTES_LEN h \<noteq> []"
    using assms(2) by (simp add: IPV6_BYTES_LEN_def)
qed

subsection \<open>Order and multisets\<close>

lemma pair_le_fst: "(a, i) \<le> (b, j) \<Longrightarrow> a \<le> (b :: bytes)"
  by (auto simp: less_eq_prod_def)

lemma pending_update:
  "i < length hs \<Longrightarrow>
   pending (hs[i := h']) + mset (read_records (hs ! i)) = pending hs + mset (read_records h')"
proof (induction hs arbitrary: i)
  case (Cons h hs)
  show ?case
  proof (cases i)
    case 0
    then show ?thesis by (simp add: pending_def)
  next
    case (Suc j)
    then have "pending (hs[j := h']) + mset (read_records (hs ! j))
               = pending hs + mset (read_records h')"
      using Cons by simp
    then show ?thesis using Suc by (simp add: pending_def ac_simps)
  qed
qed simp

lemma pending_append: "pending (hs @ [h]) = pending hs + mset (read_records h)"
  by (simp add: pending_def)

lemma distinct_snd_insort:
  "distinct (map snd (insort x heap)) \<longleftrightarrow> snd x \<notin> snd ` set heap \<and> distinct (map snd heap)"
proof -
  have "mset (map snd (insort x heap)) = mset (map snd (x # heap))"
    by simp
  then have "distinct (map snd (insort x heap)) \<longleftrightarrow> distinct (map snd (x # heap))"
    by (rule mset_eq_imp_distinct_iff)
  then show ?thesis by simp
qed

subsection \<open>One step of the merge loop\<close>

lemma merge_inv_entry:
  assumes "merge_inv heap hs out" "(r, i) \<in> set heap"
  shows "i < length hs" "length r = IPV6_BYTES_LEN" "\<forall>x\<in>set out. x \<le> r"
    "\<forall>y\<in>set (read_records (hs ! i)). r \<le> y"
  using assms unfolding merge_inv_def by blast+

lemma merge_inv_handle:
  assumes "merge_inv heap hs out" "i < length hs"
  shows "aligned (hs ! i)" "sorted (read_records (hs ! i))"
    "read_records (hs ! i) \<noteq> [] \<Longrightarrow> i \<in> snd ` set heap"
  using assms unfolding merge_inv_def by blast+

lemma merge_inv_step:
  assumes inv: "merge_inv ((rec0, idx) # heap) hs out"
  defines "h \<equiv> hs ! idx"
  defines "heap' \<equiv> (if take IPV6_BYTES_LEN h \<noteq> []
                     then heappush heap (take IPV6_BYTES_LEN h, idx) else heap)"
  defines "hs' \<equiv> hs[idx := drop IPV6_BYTES_LEN h]"
  shows "idx < length hs"
    and "merge_inv heap' hs' (out @ [rec0])"
    and "mset (map fst heap') + pending hs' = mset (map fst heap) + pending hs"
proof -
  have top: "(rec0, idx) \<in> set ((rec0, idx) # heap)" by simp
  note e = merge_inv_entry[OF inv top]
  show idx: "idx < length hs" by (rule e(1))
  have sh: "sorted heap" "\<forall>p\<in>set heap. (rec0, idx) \<le> p"
    using inv unfolding merge_inv_def by auto
  have dist: "idx \<notin> snd ` set heap" "distinct (map snd heap)"
    using inv unfolding merge_inv_def by auto
  have so: "sorted (out @ [rec0])"
    using inv e(3) unfolding merge_inv_def by (simp add: sorted_append)
  have tail: "i \<noteq> idx \<and> rec0 \<le> r \<and> i < length hs \<and> length r = IPV6_BYTES_LEN \<and>
              (\<forall>x\<in>set out. x \<le> r) \<and> (\<forall>y\<in>set (read_records (hs ! i)). r \<le> y)"
    if m: "(r, i) \<in> set heap" for r i
  proof -
    have m': "(r, i) \<in> set ((rec0, idx) # heap)" using m by simp
    note t = merge_inv_entry[OF inv m']
    have "i \<noteq> idx" using m dist(1) by force
    moreover have "rec0 \<le> r" using sh(2) m pair_le_fst by blast
    ultimately show ?thesis using t by blast
  qed
  have ah: "aligned h" "sorted (read_records h)"
    using merge_inv_handle[OF inv idx] by (simp_all add: h_def)
  have other: "aligned (hs ! i) \<and> sorted (read_records (hs ! i)) \<and>
               (read_records (hs ! i) \<noteq> [] \<longrightarrow> i \<in> snd ` set heap)"
    if "i < length hs" "i \<noteq> idx" for i
  proof -
    note t = merge_inv_handle[OF inv that(1)]
    have "read_records (hs ! i) \<noteq> [] \<longrightarrow> i \<in> snd ` set heap"
      using t(3) that(2) by auto
    then show ?thesis using t by blast
  qed
  have nth': "hs' ! i = (if i = idx then drop IPV6_BYTES_LEN h else hs ! i)" if "i < length hs" for i
    using that by (simp add: hs'_def nth_list_update)
  have len': "length hs' = length hs" by (simp add: hs'_def)
  show "merge_inv heap' hs' (out @ [rec0])"
  proof (cases "h = []")
    case True
    then have hp: "heap' = heap" by (simp add: heap'_def)
    have c4: "\<forall>(r, i)\<in>set heap'. i < length hs' \<and> length r = IPV6_BYTES_LEN \<and>
                (\<forall>x\<in>set (out @ [rec0]). x \<le> r) \<and> (\<forall>y\<in>set (read_records (hs' ! i)). r \<le> y)"
      unfolding hp using tail nth' len' by fastforce
    have c5: "\<forall>i<length hs'. aligned (hs' ! i) \<and> sorted (read_records (hs' ! i)) \<and>
                (read_records (hs' ! i) \<noteq> [] \<longrightarrow> i \<in> snd ` set heap')"
    proof (intro allI impI)
      fix i assume "i < length hs'"
      then have i: "i < length hs" by (simp add: len')
      show "aligned (hs' ! i) \<and> sorted (read_records (hs' ! i)) \<and>
            (read_records (hs' ! i) \<noteq> [] \<longrightarrow> i \<in> snd ` set heap')"
      proof (cases "i = idx")
        case True
        then show ?thesis using nth'[OF i] \<open>h = []\<close> by (simp add: aligned_Nil)
      next
        case False
        then show ?thesis using other[OF i False] nth'[OF i] hp by simp
      qed
    qed
    show ?thesis unfolding merge_inv_def using sh(1) dist(2) so c4 c5 hp by blast
  next
    case False
    define r1 where "r1 = take IPV6_BYTES_LEN h"
    define h' where "h' = drop IPV6_BYTES_LEN h"
    note a = aligned_step[OF ah(1) False]
    have rr: "read_records h = r1 # read_records h'"
      using read_records_step[OF False] by (simp add: r1_def h'_def)
    have hp: "heap' = insort (r1, idx) heap"
      using a(3) by (simp add: heap'_def heappush_def r1_def)
    have set_hp: "set heap' = insert (r1, idx) (set heap)" by (simp add: hp set_insort_key)
    have r1_ge: "rec0 \<le> r1" using e(4) rr by (simp add: h_def)
    have r1_le: "\<forall>y\<in>set (read_records h'). r1 \<le> y" using ah(2) rr by simp
    have c1: "sorted heap'" using sh(1) by (simp add: hp sorted_insort)
    have c2: "distinct (map snd heap')" using dist by (simp add: hp distinct_snd_insort)
    have c4: "\<forall>(r, i)\<in>set heap'. i < length hs' \<and> length r = IPV6_BYTES_LEN \<and>
                (\<forall>x\<in>set (out @ [rec0]). x \<le> r) \<and> (\<forall>y\<in>set (read_records (hs' ! i)). r \<le> y)"
    proof (intro ballI, clarify)
      fix r i assume "(r, i) \<in> set heap'"
      then consider "r = r1 \<and> i = idx" | "(r, i) \<in> set heap" using set_hp by auto
      then show "i < length hs' \<and> length r = IPV6_BYTES_LEN \<and>
                 (\<forall>x\<in>set (out @ [rec0]). x \<le> r) \<and> (\<forall>y\<in>set (read_records (hs' ! i)). r \<le> y)"
      proof cases
        case 1
        have "\<forall>x\<in>set out. x \<le> r1" using e(3) r1_ge by auto
        then show ?thesis
          using 1 idx a(1) r1_ge r1_le nth'[OF idx] by (simp add: len' r1_def h'_def)
      next
        case 2
        note t = tail[OF 2]
        then have "hs' ! i = hs ! i" using nth'[of i] by simp
        then show ?thesis using t by (simp add: len')
      qed
    qed
    have c5: "\<forall>i<length hs'. aligned (hs' ! i) \<and> sorted (read_records (hs' ! i)) \<and>
                (read_records (hs' ! i) \<noteq> [] \<longrightarrow> i \<in> snd ` set heap')"
    proof (intro allI impI)
      fix i assume "i < length hs'"
      then have i: "i < length hs" by (simp add: len')
      show "aligned (hs' ! i) \<and> sorted (read_records (hs' ! i)) \<and>
            (read_records (hs' ! i) \<noteq> [] \<longrightarrow> i \<in> snd ` set heap')"
      proof (cases "i = idx")
        case True
        have "sorted (read_records h')" using ah(2) rr by simp
        then show ?thesis using True nth'[OF i] a(2) set_hp by (simp add: h'_def)
      next
        case False
        then show ?thesis using other[OF i False] nth'[OF i] set_hp by auto
      qed
    qed
    show ?thesis unfolding merge_inv_def using c1 c2 so c4 c5 by blast
  qed
  show "mset (map fst heap') + pending hs' = mset (map fst heap) + pending hs"
  proof (cases "h = []")
    case True
    have "pending hs' + mset (read_records (hs ! idx)) = pending hs + mset (read_records (drop IPV6_BYTES_LEN h))"
      unfolding hs'_def by (rule pending_update[OF idx])
    then show ?thesis using True by (simp add: heap'_def h_def)
  next
    case False
    note a = aligned_step[OF ah(1) False]
    have "pending hs' + mset (read_records (hs ! idx)) = pending hs + mset (read_records (drop IPV6_BYTES_LEN h))"
      unfolding hs'_def by (rule pending_update[OF idx])
    then have "pending hs' + {#take IPV6_BYTES_LEN h#} = pending hs"
      using read_records_step[OF False] by (simp add: h_def)
    then show ?thesis using a(3) by (simp add: heap'_def heappush_def ac_simps)
  qed
qed


subsection \<open>The whole loop\<close>

lemma pending_empty: "\<forall>h\<in>set hs. read_records h = [] \<Longrightarrow> pending hs = {#}"
  by (induction hs) (simp_all add: pending_def)

lemma merge_loop_correct:
  "merge_inv heap hs out \<Longrightarrow>
   \<exists>out'. merge_loop heap hs out = (out', None) \<and> sorted out' \<and>
          mset out' = mset out + mset (map fst heap) + pending hs"
proof (induction heap hs out rule: merge_loop.induct)
  case (1 hs out)
  have "\<forall>h\<in>set hs. read_records h = []"
  proof
    fix h assume "h \<in> set hs"
    then obtain i where i: "i < length hs" "hs ! i = h" by (auto simp: in_set_conv_nth)
    show "read_records h = []"
      using merge_inv_handle(3)[OF "1.prems" i(1)] i(2) by auto
  qed
  then have "pending hs = {#}" by (rule pending_empty)
  moreover have "sorted out" using "1.prems" by (simp add: merge_inv_def)
  ultimately show ?case by simp
next
  case (2 rec0 idx heap hs out)
  note st = merge_inv_step[OF "2.prems"]
  obtain out' where o: "merge_loop
        (if take IPV6_BYTES_LEN (hs ! idx) \<noteq> []
         then heappush heap (take IPV6_BYTES_LEN (hs ! idx), idx) else heap)
        (hs[idx := drop IPV6_BYTES_LEN (hs ! idx)]) (out @ [rec0]) = (out', None)"
      "sorted out'"
      "mset out' = mset (out @ [rec0]) +
         mset (map fst (if take IPV6_BYTES_LEN (hs ! idx) \<noteq> []
                        then heappush heap (take IPV6_BYTES_LEN (hs ! idx), idx) else heap)) +
         pending (hs[idx := drop IPV6_BYTES_LEN (hs ! idx)])"
    using "2.IH"[OF st(1) refl refl refl st(2)] by blast
  have "merge_loop ((rec0, idx) # heap) hs out = (out', None)"
    using st(1) o(1) by (simp add: Let_def)
  moreover have "mset out' = mset out + mset (map fst ((rec0, idx) # heap)) + pending hs"
    using o(3) st(3) by (simp add: ac_simps)
  ultimately show ?case using o(2) by blast
qed

subsection \<open>Opening the runs\<close>

lemma merge_inv_open:
  assumes inv: "merge_inv heap hs []" and al: "aligned run" and so: "sorted (read_records run)"
  defines "hs' \<equiv> hs @ [drop IPV6_BYTES_LEN run]"
  defines "heap' \<equiv> (if take IPV6_BYTES_LEN run \<noteq> []
                     then heappush heap (take IPV6_BYTES_LEN run, length hs' - 1) else heap)"
  shows "merge_inv heap' hs' []"
    and "mset (map fst heap') + pending hs' = mset (map fst heap) + pending hs + mset (read_records run)"
proof -
  have old: "i < length hs \<and> length r = IPV6_BYTES_LEN \<and>
             (\<forall>y\<in>set (read_records (hs ! i)). r \<le> y)" if "(r, i) \<in> set heap" for r i
    using merge_inv_entry[OF inv that] by blast
  have nth_old: "hs' ! i = hs ! i" if "i < length hs" for i
    using that by (simp add: hs'_def nth_append)
  have nth_new: "hs' ! length hs = drop IPV6_BYTES_LEN run" by (simp add: hs'_def)
  have len': "length hs' = Suc (length hs)" by (simp add: hs'_def)
  have fresh: "length hs \<notin> snd ` set heap" using old by force
  have sh: "sorted heap" "distinct (map snd heap)" using inv by (simp_all add: merge_inv_def)
  have handle_old: "aligned (hs ! i) \<and> sorted (read_records (hs ! i)) \<and>
                    (read_records (hs ! i) \<noteq> [] \<longrightarrow> i \<in> snd ` set heap)" if "i < length hs" for i
    using merge_inv_handle[OF inv that] by blast
  show "merge_inv heap' hs' []"
  proof (cases "run = []")
    case True
    then have hp: "heap' = heap" by (simp add: heap'_def)
    have c4: "\<forall>(r, i)\<in>set heap'. i < length hs' \<and> length r = IPV6_BYTES_LEN \<and>
                (\<forall>x\<in>set []. x \<le> r) \<and> (\<forall>y\<in>set (read_records (hs' ! i)). r \<le> y)"
      unfolding hp using old nth_old len' by fastforce
    have c5: "\<forall>i<length hs'. aligned (hs' ! i) \<and> sorted (read_records (hs' ! i)) \<and>
                (read_records (hs' ! i) \<noteq> [] \<longrightarrow> i \<in> snd ` set heap')"
    proof (intro allI impI)
      fix i assume "i < length hs'"
      then consider "i < length hs" | "i = length hs" using len' by linarith
      then show "aligned (hs' ! i) \<and> sorted (read_records (hs' ! i)) \<and>
            (read_records (hs' ! i) \<noteq> [] \<longrightarrow> i \<in> snd ` set heap')"
      proof cases
        case 1
        then show ?thesis using handle_old[OF 1] nth_old[OF 1] hp by simp
      next
        case 2
        then show ?thesis using nth_new True by (simp add: aligned_Nil)
      qed
    qed
    show ?thesis unfolding merge_inv_def using sh c4 c5 hp by simp
  next
    case False
    define r1 where "r1 = take IPV6_BYTES_LEN run"
    note a = aligned_step[OF al False]
    have rr: "read_records run = r1 # read_records (drop IPV6_BYTES_LEN run)"
      using read_records_step[OF False] by (simp add: r1_def)
    have hp: "heap' = insort (r1, length hs) heap"
      using a(3) by (simp add: heap'_def heappush_def r1_def len')
    have set_hp: "set heap' = insert (r1, length hs) (set heap)" by (simp add: hp set_insort_key)
    have c1: "sorted heap'" using sh(1) by (simp add: hp sorted_insort)
    have c2: "distinct (map snd heap')" using sh(2) fresh by (simp add: hp distinct_snd_insort)
    have c4: "\<forall>(r, i)\<in>set heap'. i < length hs' \<and> length r = IPV6_BYTES_LEN \<and>
                (\<forall>x\<in>set []. x \<le> r) \<and> (\<forall>y\<in>set (read_records (hs' ! i)). r \<le> y)"
    proof (intro ballI, clarify)
      fix r i assume "(r, i) \<in> set heap'"
      then consider "r = r1 \<and> i = length hs" | "(r, i) \<in> set heap" using set_hp by auto
      then show "i < length hs' \<and> length r = IPV6_BYTES_LEN \<and>
                 (\<forall>x\<in>set []. x \<le> r) \<and> (\<forall>y\<in>set (read_records (hs' ! i)). r \<le> y)"
      proof cases
        case 1
        have "\<forall>y\<in>set (read_records (drop IPV6_BYTES_LEN run)). r1 \<le> y" using so rr by simp
        then show ?thesis using 1 a(1) nth_new by (simp add: len' r1_def)
      next
        case 2
        then show ?thesis using old[OF 2] nth_old[of i] by (simp add: len')
      qed
    qed
    have c5: "\<forall>i<length hs'. aligned (hs' ! i) \<and> sorted (read_records (hs' ! i)) \<and>
                (read_records (hs' ! i) \<noteq> [] \<longrightarrow> i \<in> snd ` set heap')"
    proof (intro allI impI)
      fix i assume "i < length hs'"
      then consider "i < length hs" | "i = length hs" using len' by linarith
      then show "aligned (hs' ! i) \<and> sorted (read_records (hs' ! i)) \<and>
            (read_records (hs' ! i) \<noteq> [] \<longrightarrow> i \<in> snd ` set heap')"
      proof cases
        case 1
        then show ?thesis using handle_old[OF 1] nth_old[OF 1] set_hp by auto
      next
        case 2
        have "sorted (read_records (drop IPV6_BYTES_LEN run))" using so rr by simp
        then show ?thesis using 2 nth_new a(2) set_hp by simp
      qed
    qed
    show ?thesis unfolding merge_inv_def using c1 c2 c4 c5 by simp
  qed
  show "mset (map fst heap') + pending hs' = mset (map fst heap) + pending hs + mset (read_records run)"
  proof (cases "run = []")
    case True
    then show ?thesis by (simp add: heap'_def hs'_def pending_append)
  next
    case False
    note a = aligned_step[OF al False]
    show ?thesis
      using a(3) read_records_step[OF False]
      by (simp add: heap'_def hs'_def pending_append heappush_def)
  qed
qed

lemma open_runs_correct:
  assumes "list_all2 (\<lambda>p run. read_file w p = Some run) ps runs"
    "\<forall>run\<in>set runs. aligned run \<and> sorted (read_records run)"
    "merge_inv heap hs []"
  shows "\<exists>heap' hs'. open_runs w ps heap hs = Inr (heap', hs') \<and> merge_inv heap' hs' [] \<and>
           mset (map fst heap') + pending hs' = mset (map fst heap) + pending hs + pending runs"
  using assms
proof (induction ps runs arbitrary: heap hs rule: list_all2_induct)
  case Nil
  then show ?case by (simp add: pending_def)
next
  case (Cons p ps run runs)
  define hs1 where "hs1 = hs @ [drop IPV6_BYTES_LEN run]"
  define heap1 where "heap1 = (if take IPV6_BYTES_LEN run \<noteq> []
                     then heappush heap (take IPV6_BYTES_LEN run, length hs1 - 1) else heap)"
  have ar: "aligned run" "sorted (read_records run)" using Cons.prems(1) by simp_all
  have m: "merge_inv heap1 hs1 []"
    "mset (map fst heap1) + pending hs1 = mset (map fst heap) + pending hs + mset (read_records run)"
    unfolding heap1_def hs1_def by (rule merge_inv_open[OF Cons.prems(2) ar])+
  have pr: "\<forall>run\<in>set runs. aligned run \<and> sorted (read_records run)"
    using Cons.prems(1) by simp
  obtain heap' hs' where r: "open_runs w ps heap1 hs1 = Inr (heap', hs')" "merge_inv heap' hs' []"
      "mset (map fst heap') + pending hs' = mset (map fst heap1) + pending hs1 + pending runs"
    using Cons.IH[OF pr m(1)] by blast
  have "open_runs w (p # ps) heap hs = open_runs w ps heap1 hs1"
    unfolding heap1_def hs1_def using Cons.hyps(1)
    by (simp only: open_runs.simps option.case Let_def)
  then have "open_runs w (p # ps) heap hs = Inr (heap', hs')"
    using r(1) by simp
  moreover have "mset (map fst heap') + pending hs'
                 = mset (map fst heap) + pending hs + pending (run # runs)"
    using r(3) m(2) by (simp add: pending_def ac_simps)
  ultimately show ?case using r(2) by blast
qed

lemma merge_inv_empty: "merge_inv [] [] []"
  by (simp add: merge_inv_def)


section \<open>The external sort\<close>

lemma world_files_id: "w\<lparr>files := files w\<rparr> = w"
  by simp

lemma records_per_block_pos: "0 < records_per_block"
  by (simp add: records_per_block_def block_size_def IPV6_BYTES_LEN_def)

lemma sorted_run:
  assumes "\<forall>r\<in>set b. length r = IPV6_BYTES_LEN"
  shows "aligned (concat (sort b))" "read_records (concat (sort b)) = sort b"
proof -
  have a: "\<forall>r\<in>set (sort b). length r = IPV6_BYTES_LEN" using assms by simp
  show "aligned (concat (sort b))" using a by (rule aligned_concat)
  show "read_records (concat (sort b)) = sort b" using a by (rule read_records_concat)
qed

lemma split_sort_correct:
  assumes "tmp_limit w = None" "\<forall>r\<in>set rs. length r = IPV6_BYTES_LEN"
  shows "\<exists>ps runs. split_sort w (concat rs) acc = (w\<lparr>files := files w @ zip ps runs\<rparr>, Inr (acc @ ps)) \<and>
           length ps = length runs \<and> distinct ps \<and> set ps \<inter> fst ` set (files w) = {} \<and>
           (\<forall>run\<in>set runs. aligned run \<and> sorted (read_records run)) \<and> pending runs = mset rs"
  using assms
proof (induction rs arbitrary: w acc rule: length_induct)
  case (1 rs)
  define n where "n = records_per_block"
  have tk: "take (records_per_block * IPV6_BYTES_LEN) (concat rs) = concat (take n rs)"
    unfolding n_def using "1.prems"(2) by (rule take_concat_records)
  have dr: "drop (records_per_block * IPV6_BYTES_LEN) (concat rs) = concat (drop n rs)"
    unfolding n_def using "1.prems"(2) by (rule drop_concat_records)
  have lb: "\<forall>r\<in>set (take n rs). length r = IPV6_BYTES_LEN"
    using "1.prems"(2) by (auto dest: in_set_takeD)
  have ld: "\<forall>r\<in>set (drop n rs). length r = IPV6_BYTES_LEN"
    using "1.prems"(2) by (auto dest: in_set_dropD)
  have block: "read_records (take (records_per_block * IPV6_BYTES_LEN) (concat rs)) = take n rs"
    unfolding tk using lb by (rule read_records_concat)
  show ?case
  proof (cases "rs = []")
    case True
    have "split_sort w (concat rs) acc = (w, Inr acc)"
      using True by (subst split_sort.simps) simp
    then have "split_sort w (concat rs) acc = (w\<lparr>files := files w @ zip [] []\<rparr>, Inr (acc @ []))"
      by simp
    moreover have "pending [] = mset rs" using True by (simp add: pending_def)
    ultimately show ?thesis by (intro exI[of _ "[]"]) simp
  next
    case False
    have npos: "0 < n" unfolding n_def by (rule records_per_block_pos)
    then have bne: "take n rs \<noteq> []" using False by (cases rs) auto
    define p where "p = TempFile 0 (fresh_index 0 (files w))"
    define c where "c = concat (sort (take n rs))"
    define w2 where "w2 = w\<lparr>files := files w @ [(p, c)]\<rparr>"
    have pf: "p \<notin> fst ` set (files w)" unfolding p_def by (rule fresh_index_fresh)
    have mk: "mkstemp 0 w = (w\<lparr>files := files w @ [(p, [])]\<rparr>, Inr p)"
      unfolding p_def by (rule mkstemp_unlimited[OF "1.prems"(1)])
    have wr: "write_file (w\<lparr>files := files w @ [(p, [])]\<rparr>) p c = w2"
      unfolding w2_def using pf by (rule write_file_last)
    have step: "split_sort w (concat rs) acc = split_sort w2 (concat (drop n rs)) (acc @ [p])"
      using npos False
      by (subst split_sort.simps) (simp add: block mk wr[unfolded c_def] dr Let_def)
    have less: "length (drop n rs) < length rs" using npos False by (cases rs) auto
    have lim2: "tmp_limit w2 = None" using "1.prems"(1) by (simp add: w2_def)
    obtain ps runs where r:
      "split_sort w2 (concat (drop n rs)) (acc @ [p])
         = (w2\<lparr>files := files w2 @ zip ps runs\<rparr>, Inr ((acc @ [p]) @ ps))"
      "length ps = length runs" "distinct ps" "set ps \<inter> fst ` set (files w2) = {}"
      "\<forall>run\<in>set runs. aligned run \<and> sorted (read_records run)"
      "pending runs = mset (drop n rs)"
      using "1.IH"[rule_format, OF less lim2 ld[rule_format], of "acc @ [p]"] by blast
    have f2: "files w2 = files w @ [(p, c)]" by (simp add: w2_def)
    have e1: "split_sort w (concat rs) acc
              = (w\<lparr>files := files w @ zip (p # ps) (c # runs)\<rparr>, Inr (acc @ (p # ps)))"
      using step r(1) by (simp add: w2_def)
    have e2: "distinct (p # ps)" using r(3) r(4) f2 by auto
    have e3: "set (p # ps) \<inter> fst ` set (files w) = {}" using r(4) pf f2 by auto
    have rc: "aligned c" "read_records c = sort (take n rs)"
      unfolding c_def using sorted_run[OF lb] by simp_all
    have e4: "\<forall>run\<in>set (c # runs). aligned run \<and> sorted (read_records run)"
      using r(5) rc by simp
    have "mset (take n rs) + mset (drop n rs) = mset rs"
      by (metis append_take_drop_id mset_append)
    then have e5: "pending (c # runs) = mset rs"
      using r(6) rc(2) by (simp add: pending_def)
    show ?thesis
      using e1 e2 e3 e4 e5 r(2) by (intro exI[of _ "p # ps"] exI[of _ "c # runs"]) simp
  qed
qed

lemma fst_set_zip: "length ps = length runs \<Longrightarrow> fst ` set (zip ps runs) = set ps"
  by (induction ps runs rule: list_induct2) auto

lemma read_runs:
  assumes "length ps = length runs" "distinct ps" "set ps \<inter> fst ` set F = {}"
    "set ps \<inter> fst ` set G = {}"
  shows "list_all2 (\<lambda>p run. read_file (w\<lparr>files := F @ zip ps runs @ G\<rparr>) p = Some run) ps runs"
proof (rule list_all2_all_nthI)
  show "length ps = length runs" by (rule assms(1))
next
  fix i assume i: "i < length ps"
  have "ps ! i \<in> set ps" using i by simp
  then have a: "ps ! i \<notin> fst ` set F" "ps ! i \<notin> fst ` set G" using assms(3,4) by blast+
  have "map_of (F @ zip ps runs @ G) (ps ! i) = map_of (zip ps runs @ G) (ps ! i)"
    using a(1) by (rule map_of_append_right)
  also have "\<dots> = map_of (zip ps runs) (ps ! i)"
    using a(2) by (rule map_of_append_left)
  also have "\<dots> = Some (runs ! i)"
    using i assms(1,2) by (intro map_of_zip_nth) simp_all
  finally show "read_file (w\<lparr>files := F @ zip ps runs @ G\<rparr>) (ps ! i) = Some (runs ! i)"
    by (simp add: read_file_def)
qed

lemma external_sort_correct:
  assumes "read_file w path = Some (concat rs)" "\<forall>r\<in>set rs. length r = IPV6_BYTES_LEN"
    "tmp_limit w = None"
  shows "\<exists>res out. external_sort w path = (w\<lparr>files := files w @ [(res, concat out)]\<rparr>, Inr res) \<and>
           res \<notin> fst ` set (files w) \<and> sorted out \<and> mset out = mset rs"
proof -
  obtain ps runs where s:
    "split_sort w (concat rs) [] = (w\<lparr>files := files w @ zip ps runs\<rparr>, Inr ([] @ ps))"
    "length ps = length runs" "distinct ps" "set ps \<inter> fst ` set (files w) = {}"
    "\<forall>run\<in>set runs. aligned run \<and> sorted (read_records run)" "pending runs = mset rs"
    using split_sort_correct[OF assms(3,2), of "[]"] by blast
  define w1 where "w1 = w\<lparr>files := files w @ zip ps runs\<rparr>"
  define res where "res = TempFile 0 (fresh_index 0 (files w1))"
  define w2 where "w2 = w\<lparr>files := files w @ zip ps runs @ [(res, [])]\<rparr>"
  have f1: "files w1 = files w @ zip ps runs" by (simp add: w1_def)
  have rf: "res \<notin> fst ` set (files w1)" unfolding res_def by (rule fresh_index_fresh)
  then have rf_w: "res \<notin> fst ` set (files w)" and rf_ps: "res \<notin> set ps"
    using fst_set_zip[OF s(2)] by (auto simp: f1 image_Un)
  have "tmp_limit w1 = None" using assms(3) by (simp add: w1_def)
  then have mk: "mkstemp 0 w1 = (w2, Inr res)"
    using mkstemp_unlimited[of w1 0] by (simp add: res_def w2_def w1_def)
  have rd: "list_all2 (\<lambda>p run. read_file w2 p = Some run) ps runs"
    unfolding w2_def using s(2,3,4) rf_ps by (intro read_runs) auto
  obtain heap hs where o: "open_runs w2 ps [] [] = Inr (heap, hs)" "merge_inv heap hs []"
    "mset (map fst heap) + pending hs = pending runs"
    using open_runs_correct[OF rd s(5) merge_inv_empty] by (auto simp: pending_def)
  obtain out where m: "merge_loop heap hs [] = (out, None)" "sorted out"
    "mset out = mset (map fst heap) + pending hs"
    using merge_loop_correct[OF o(2)] by auto
  have mo: "mset out = mset rs" using m(3) o(3) s(6) by simp
  have wr: "write_file w2 res (concat out) = w\<lparr>files := files w @ zip ps runs @ [(res, concat out)]\<rparr>"
    using write_file_last[where p = res and F = "files w @ zip ps runs" and w = w
        and x = "[]" and data = "concat out"] rf
    by (simp add: w2_def f1)
  have ul: "unlink_all (w\<lparr>files := files w @ zip ps runs @ [(res, concat out)]\<rparr>) ps
            = (w\<lparr>files := files w @ [(res, concat out)]\<rparr>, Inr ())"
    using s(2,3,4) rf_ps by (intro unlink_all_zip) auto
  have "external_sort w path = (w\<lparr>files := files w @ [(res, concat out)]\<rparr>, Inr res)"
    using assms(1) s(1) mk o(1) m(1) wr ul
    by (simp add: external_sort_def w1_def)
  then show ?thesis using rf_w m(2) mo by blast
qed

lemma count_unique_external_correct:
  assumes "read_file w path = Some (concat rs)" "\<forall>r\<in>set rs. length r = IPV6_BYTES_LEN"
    "tmp_limit w = None"
  shows "count_unique_external w path = (w, Inr (card (set rs)))"
proof -
  obtain res out where e:
    "external_sort w path = (w\<lparr>files := files w @ [(res, concat out)]\<rparr>, Inr res)"
    "res \<notin> fst ` set (files w)" "sorted out" "mset out = mset rs"
    using external_sort_correct[OF assms] by blast
  have so: "set out = set rs" using e(4) by (rule mset_eq_setD)
  then have rr: "read_records (concat out) = out"
    using assms(2) by (intro read_records_concat) simp
  have rd: "read_file (w\<lparr>files := files w @ [(res, concat out)]\<rparr>) res = Some (concat out)"
    using e(2) by (simp add: read_file_def map_of_append_right del: map_of_append)
  have del: "AList.delete res (files w @ [(res, concat out)]) = files w"
    using e(2) by (simp add: delete_append delete_notin)
  have ul: "unlink (w\<lparr>files := files w @ [(res, concat out)]\<rparr>) res = (w, Inr ())"
    using rd del by (simp add: unlink_def)
  have "count_changes None 0 out = card (set rs)"
    using count_changes_sorted[OF e(3)] so by simp
  then show ?thesis using e(1) rd rr ul by (simp add: count_unique_external_def)
qed

lemma PartitionProcessor_count_unique_correct:
  assumes "read_file w path = Some (concat rs)" "\<forall>r\<in>set rs. length r = IPV6_BYTES_LEN"
    "tmp_limit w = None"
  shows "PartitionProcessor_count_unique w path = (w, Inr (card (set rs)))"
  using assms count_unique_external_correct[OF assms] count_unique_in_memory_correct[OF assms(1,2)]
  by (simp add: PartitionProcessor_count_unique_def Let_def)


section \<open>The counting tasks of all partitions\<close>

lemma concat_read_records: "concat (read_records d) = d"
  by (induction d rule: read_records.induct) (simp_all del: take_Suc_Cons drop_Suc_Cons)

lemma task_result:
  assumes "tmp_limit w = None" "\<forall>d. read_file w p = Some d \<longrightarrow> aligned d"
  shows "PartitionProcessor_count_unique w p =
           (w, case read_file w p of
                 None \<Rightarrow> Inl FileNotFoundError
               | Some d \<Rightarrow> Inr (card (set (read_records d))))"
proof (cases "read_file w p")
  case None
  then show ?thesis by (simp add: PartitionProcessor_count_unique_def)
next
  case (Some d)
  have a: "\<forall>r\<in>set (read_records d). length r = IPV6_BYTES_LEN"
    using assms(2) Some by (simp add: aligned_def)
  have r: "read_file w p = Some (concat (read_records d))"
    using Some by (simp add: concat_read_records)
  show ?thesis
    using PartitionProcessor_count_unique_correct[OF r a assms(1)] Some by simp
qed

lemma partition_report_stderr [simp]:
  "partition_report (w\<lparr>stderr := s\<rparr>) = partition_report w"
  "partition_count (w\<lparr>stderr := s\<rparr>) = partition_count w"
  by (simp_all add: partition_report_def partition_count_def read_file_def fun_eq_iff)

lemma process_partitions_loop_correct:
  assumes "tmp_limit w = None" "\<forall>p\<in>set ps. \<forall>d. read_file w p = Some d \<longrightarrow> aligned d"
  shows "process_partitions_loop ps t0 w =
           (w\<lparr>stderr := stderr w @ map (partition_report w) ps\<rparr>,
            t0 + sum_list (map (partition_count w) ps))"
  using assms
proof (induction ps arbitrary: t0 w)
  case Nil
  then show ?case by simp
next
  case (Cons p ps)
  have t: "PartitionProcessor_count_unique w p =
           (w, case read_file w p of
                 None \<Rightarrow> Inl FileNotFoundError
               | Some d \<Rightarrow> Inr (card (set (read_records d))))"
    using Cons.prems by (intro task_result) auto
  define w1 where "w1 = print_stderr (partition_report w p) w"
  have w1: "tmp_limit w1 = None" "\<forall>q\<in>set ps. \<forall>d. read_file w1 q = Some d \<longrightarrow> aligned d"
    using Cons.prems by (simp_all add: w1_def print_stderr_def read_file_def)
  have step: "process_partitions_loop (p # ps) t0 w
              = process_partitions_loop ps (t0 + partition_count w p) w1"
    using t by (cases "read_file w p")
      (simp_all add: w1_def partition_report_def partition_count_def)
  have "process_partitions_loop ps (t0 + partition_count w p) w1 =
          (w1\<lparr>stderr := stderr w1 @ map (partition_report w1) ps\<rparr>,
           t0 + partition_count w p + sum_list (map (partition_count w1) ps))"
    using w1 by (rule Cons.IH)
  then show ?case unfolding step by (simp add: w1_def print_stderr_def)
qed

end
